theory Spec2Isabelle
  imports Complex_Main "HOL-Library.Log_Nat" "HOL-Library.AList"
begin

section \<open>Python values used by scrape.py\<close>

text \<open>
  The exceptions that the statements of \<^verbatim>\<open>worker\<close> can raise.  \<^verbatim>\<open>ConnectionError\<close> stands for
  every exception of the HTTP library that is not an \<^verbatim>\<open>HTTPError\<close>.
\<close>

datatype py_error =
  HTTPError | ConnectionError | KeyError | ValueError | ZeroDivisionError | OverflowError | OSError

type_synonym bytes = string

subsection \<open>Floats: \<^verbatim>\<open>int / int\<close>, \<^verbatim>\<open>float * int\<close> and \<^verbatim>\<open>round\<close>\<close>

text \<open>
  A Python float is an IEEE binary64 number.  Finite floats are modelled by the rational they
  denote.  \<open>rhe\<close> rounds a rational to the nearest integer, ties to the even one (Python's
  \<^verbatim>\<open>round\<close> on a float).  \<open>expo r\<close> is the binary exponent of a positive rational
  (\<open>2 powi expo r \<le> r < 2 powi (expo r + 1)\<close>), and \<open>rn\<close> rounds a rational to the nearest
  number with a 53-bit significand whose quantum is at least \<open>2 powi - 1074\<close>, ties to even.
\<close>

definition rhe :: "rat \<Rightarrow> int" where
  "rhe r = (let f = \<lfloor>r\<rfloor>; d = r - of_int f in
            if d < 1 / 2 then f else if 1 / 2 < d then f + 1 else if even f then f else f + 1)"

definition expo :: "rat \<Rightarrow> int" where
  "expo r = (case quotient_of r of (a, b) \<Rightarrow>
              let d = bitlen a - bitlen b
              in if r < 2 powi d then d - 1 else d)"

definition rn :: "rat \<Rightarrow> rat" where
  "rn r = (if r = 0 then 0 else
           let a = \<bar>r\<bar>; q = max (expo a - 52) (- 1074); m = rhe (a / 2 powi q)
           in sgn r * of_int m * 2 powi q)"

datatype pyfloat = Finite rat | PosInf | NegInf

text \<open>\<^verbatim>\<open>a / b\<close> on two ints: correctly rounded, \<^verbatim>\<open>ZeroDivisionError\<close> or \<^verbatim>\<open>OverflowError\<close>
  (a result of magnitude \<open>float_limit\<close> or more is no float).\<close>

definition float_limit :: rat where
  "float_limit = 2 ^ 1024"

definition py_truediv :: "int \<Rightarrow> int \<Rightarrow> py_error + rat" where
  "py_truediv a b =
     (if b = 0 then Inl ZeroDivisionError
      else let v = rn (of_int a / of_int b)
           in if float_limit \<le> \<bar>v\<bar> then Inl OverflowError else Inr v)"

text \<open>\<^verbatim>\<open>x * y\<close> on floats: correctly rounded, an infinity on overflow.\<close>

definition py_fmul :: "rat \<Rightarrow> rat \<Rightarrow> pyfloat" where
  "py_fmul x y =
     (let v = rn (x * y)
      in if float_limit \<le> v then PosInf else if v \<le> - float_limit then NegInf else Finite v)"

fun py_round :: "pyfloat \<Rightarrow> py_error + int" where
  "py_round (Finite v) = Inr (rhe v)"
| "py_round PosInf = Inl OverflowError"
| "py_round NegInf = Inl OverflowError"

text \<open>Line 78: \<^verbatim>\<open>percent = round((written / length) * 100)\<close>.\<close>

definition percent :: "int \<Rightarrow> int \<Rightarrow> py_error + int" where
  "percent written len =
     (case py_truediv written len of
        Inl err \<Rightarrow> Inl err
      | Inr q \<Rightarrow> py_round (py_fmul q 100))"

subsection \<open>Strings\<close>

text \<open>
  \<^verbatim>\<open>int(s)\<close> on a header value, a string of code points below 256: surrounding whitespace
  (the characters for which \<^verbatim>\<open>str.isspace\<close> holds: 9 to 13, 28 to 32, 133 and 160), an optional
  sign, decimal digits with single underscores between them, and at most 4300 digits (the
  default of \<^verbatim>\<open>sys.get_int_max_str_digits()\<close>); anything else is a \<^verbatim>\<open>ValueError\<close> (\<open>None\<close>).
\<close>

definition is_space :: "char \<Rightarrow> bool" where
  "is_space c =
     ((9 \<le> (of_char c :: nat) \<and> (of_char c :: nat) \<le> 13) \<or>
      (28 \<le> (of_char c :: nat) \<and> (of_char c :: nat) \<le> 32) \<or>
      (of_char c :: nat) = 133 \<or> (of_char c :: nat) = 160)"

definition is_digit :: "char \<Rightarrow> bool" where
  "is_digit c = (48 \<le> (of_char c :: nat) \<and> (of_char c :: nat) \<le> 57)"

definition digit_val :: "char \<Rightarrow> nat" where
  "digit_val c = of_char c - 48"

definition strip :: "string \<Rightarrow> string" where
  "strip s = rev (dropWhile is_space (rev (dropWhile is_space s)))"

fun parse_digits :: "nat \<Rightarrow> string \<Rightarrow> nat option" where
  "parse_digits acc [] = Some acc"
| "parse_digits acc [c] = (if is_digit c then Some (10 * acc + digit_val c) else None)"
| "parse_digits acc (c # d # ds) =
     (if is_digit c then parse_digits (10 * acc + digit_val c) (d # ds)
      else if c = CHR ''_'' \<and> is_digit d then parse_digits (10 * acc + digit_val d) ds
      else None)"

definition parse_nat :: "string \<Rightarrow> nat option" where
  "parse_nat s = (case s of [] \<Rightarrow> None
                  | c # cs \<Rightarrow>
                      if 4300 < length (filter is_digit s) then None
                      else if is_digit c then parse_digits (digit_val c) cs else None)"

definition py_int :: "string \<Rightarrow> int option" where
  "py_int s =
     (case strip s of
        [] \<Rightarrow> None
      | c # cs \<Rightarrow>
          if c = CHR ''-'' then map_option (\<lambda>n. - int n) (parse_nat cs)
          else if c = CHR ''+'' then map_option int (parse_nat cs)
          else map_option int (parse_nat (c # cs)))"

text \<open>\<^verbatim>\<open>str(n)\<close> inside an f-string.\<close>

fun show_nat :: "nat \<Rightarrow> string" where
  "show_nat n = (if n < 10 then [char_of (48 + n)]
                 else show_nat (n div 10) @ [char_of (48 + n mod 10)])"

declare show_nat.simps [simp del]

definition show_int :: "int \<Rightarrow> string" where
  "show_int i = (if i < 0 then CHR ''-'' # show_nat (nat (- i)) else show_nat (nat i))"

text \<open>\<^verbatim>\<open>s.split(c)\<close> for a one-character separator; the result is never empty.\<close>

fun py_split :: "char \<Rightarrow> string \<Rightarrow> string list" where
  "py_split c [] = [[]]"
| "py_split c (x # xs) =
     (if x = c then [] # py_split c xs
      else (case py_split c xs of [] \<Rightarrow> [[x]] | w # ws \<Rightarrow> (x # w) # ws))"

text \<open>\<^verbatim>\<open>os.path.join(a, b)\<close> on POSIX.\<close>

definition path_join :: "string \<Rightarrow> string \<Rightarrow> string" where
  "path_join a b =
     (if b \<noteq> [] \<and> hd b = CHR ''/'' then b
      else if a = [] \<or> last a = CHR ''/'' then a @ b
      else a @ ''/'' @ b)"

section \<open>Data model\<close>

text \<open>An episode as yielded by \<^verbatim>\<open>query_episodes\<close>: the keys \<^verbatim>\<open>"title"\<close> and \<^verbatim>\<open>"url"\<close>.\<close>

record episode =
  title :: string
  url :: string

text \<open>The dict put into the queue at lines 146-150 (its \<^verbatim>\<open>"url"\<close> key is \<open>task_url\<close>).\<close>

record task =
  task_url :: string
  filename :: string
  display_filename :: string

definition WORKER_COUNT :: nat where
  "WORKER_COUNT = 8"

text \<open>Lines 140-142.\<close>

definition make_task :: "string \<Rightarrow> episode \<Rightarrow> task" where
  "make_task output ep =
     (let extension = last (py_split CHR ''.'' (url ep));
          display = title ep @ ''.'' @ extension
      in \<lparr>task_url = url ep, filename = path_join output display, display_filename = display\<rparr>)"

text \<open>
  What the outside world does when one task is downloaded: whether \<^verbatim>\<open>requests.get\<close> raises,
  the status code, the raw \<^verbatim>\<open>content-length\<close> header, the pieces that
  \<^verbatim>\<open>response.iter_content(n)\<close> yields when asked for pieces of \<open>n\<close> bytes (the library decides
  their sizes: with a chunked or a compressed transfer they are shorter or longer than \<open>n\<close>),
  whether reading piece number \<open>n\<close> raises, and whether \<^verbatim>\<open>open\<close> raises.  The file object
  of line 73 is buffered: bytes reach the operating system when a write does not fit into the
  buffer of \<open>buffer_size\<close> bytes, and when the file is closed.  \<open>write_fails_at\<close> names the
  write during which the operating system refuses the bytes, \<open>close_fails\<close> says that it
  refuses them when the file is closed.
\<close>

record download_env =
  connect_fails :: bool
  status_code :: nat
  content_length :: "string option"
  iter_content :: "nat \<Rightarrow> bytes list"
  stream_fails_at :: "nat option"
  open_fails :: bool
  buffer_size :: nat
  write_fails_at :: "nat option"
  close_fails :: bool

section \<open>The worker, lines 59-86\<close>

text \<open>
  The statements of one pass through the loop body, in program order.  \<open>HttpGet\<close> and
  \<open>ReadChunk\<close> are network I/O, \<open>FileOpen\<close>, \<open>FileWrite\<close> and \<open>FileClose\<close> are disk I/O,
  \<open>RegSet\<close> and \<open>RegDel\<close> are the assignments to and the \<^verbatim>\<open>del\<close> on
  \<^verbatim>\<open>currently_downloading\<close>, \<open>Raise\<close> is an exception leaving \<^verbatim>\<open>worker\<close>.
\<close>

datatype action =
    LockAcquire
  | LockRelease
  | RegSet string int
  | RegDel string
  | HttpGet string
  | ReadChunk
  | FileOpen string
  | FileWrite string bytes
  | FileClose string
  | TaskDone
  | Raise py_error

text \<open>
  Leaving the \<^verbatim>\<open>with\<close> block of line 73 through the exception \<open>err\<close>, after \<open>written\<close> bytes
  were handed to the file object: the file is closed, and when the close raises, its
  \<^verbatim>\<open>OSError\<close> is the exception that leaves the function.  A close with nothing written has
  nothing to flush.
\<close>

definition close_and_raise :: "download_env \<Rightarrow> task \<Rightarrow> int \<Rightarrow> py_error \<Rightarrow> action list" where
  "close_and_raise e i written err =
     [FileClose (filename i), Raise (if close_fails e \<and> 0 < written then OSError else err)]"

text \<open>
  Lines 75-86, from the \<^verbatim>\<open>for\<close> statement on: \<open>written\<close> is the running total, \<open>n\<close> the
  number of the next chunk.  A write can raise only when it does not fit into the buffer, that
  is when more than \<open>buffer_size\<close> bytes have been written up to and including this chunk.
  The end of the \<^verbatim>\<open>with\<close> block closes the file; lines 83-86 run when that close does not
  raise.
\<close>

fun download_loop :: "download_env \<Rightarrow> task \<Rightarrow> int \<Rightarrow> int \<Rightarrow> nat \<Rightarrow> bytes list \<Rightarrow> action list" where
  "download_loop e i len written n [] =
     (if stream_fails_at e = Some n
      then ReadChunk # close_and_raise e i written ConnectionError
      else if close_fails e \<and> 0 < written
      then [FileClose (filename i), Raise OSError]
      else [FileClose (filename i),
            LockAcquire, RegDel (display_filename i), LockRelease,
            TaskDone])"
| "download_loop e i len written n (chunk # rest) =
     (if stream_fails_at e = Some n
      then ReadChunk # close_and_raise e i written ConnectionError
      else if write_fails_at e = Some n \<and> int (buffer_size e) < written + int (length chunk)
      then ReadChunk # close_and_raise e i written OSError
      else (case percent (written + int (length chunk)) len of
              Inl err \<Rightarrow>
                [ReadChunk, FileWrite (filename i) chunk]
                @ close_and_raise e i (written + int (length chunk)) err
            | Inr p \<Rightarrow>
                [ReadChunk, FileWrite (filename i) chunk,
                 LockAcquire, RegSet (display_filename i) p, LockRelease]
                @ download_loop e i len (written + int (length chunk)) (Suc n) rest))"

text \<open>Lines 65-86 for the task \<open>i\<close>.\<close>

definition worker_task :: "download_env \<Rightarrow> task \<Rightarrow> action list" where
  "worker_task e i =
     [LockAcquire, RegSet (display_filename i) 0, LockRelease] @
     (if connect_fails e then [HttpGet (task_url i), Raise ConnectionError]
      else HttpGet (task_url i) #
        (if 400 \<le> status_code e \<and> status_code e < 600 then [Raise HTTPError]
         else case content_length e of
                None \<Rightarrow> [Raise KeyError]
              | Some h \<Rightarrow>
                  (case py_int h of
                     None \<Rightarrow> [Raise ValueError]
                   | Some len \<Rightarrow>
                       if open_fails e then [Raise OSError]
                       else FileOpen (filename i) #
                            download_loop e i len 0 0 (iter_content e (1024 * 64)))))"


text \<open>The outcomes that the model distinguishes for a download.\<close>

definition succeeds :: "download_env \<Rightarrow> task \<Rightarrow> bool" where
  "succeeds e i = (last (worker_task e i) = TaskDone)"




text \<open>The values assigned to the registry entry and the chunks written to the file, in order.\<close>

fun reg_values :: "action list \<Rightarrow> int list" where
  "reg_values [] = []"
| "reg_values (RegSet k v # as) = v # reg_values as"
| "reg_values (a # as) = reg_values as"

fun file_writes :: "action list \<Rightarrow> bytes list" where
  "file_writes [] = []"
| "file_writes (FileWrite p c # as) = c # file_writes as"
| "file_writes (a # as) = file_writes as"

fun io_action :: "action \<Rightarrow> bool" where
  "io_action (HttpGet u) = True"
| "io_action ReadChunk = True"
| "io_action (FileOpen p) = True"
| "io_action (FileWrite p c) = True"
| "io_action (FileClose p) = True"
| "io_action a = False"

section \<open>The renderer, lines 95-115\<close>

definition ESC :: char where
  "ESC = CHR 0x1B"

definition NL :: char where
  "NL = CHR 0x0A"

definition clear_eol :: string where
  "clear_eol = ESC # ''[K''"

definition cursor_up :: "nat \<Rightarrow> string" where
  "cursor_up n = ESC # ''['' @ show_nat n @ ''F''"

definition count_nl :: "string \<Rightarrow> nat" where
  "count_nl s = count_list s NL"

text \<open>Line 106, one pass of the \<^verbatim>\<open>for\<close> loop.\<close>

definition progress_line :: "string \<times> int \<Rightarrow> string" where
  "progress_line kv =
     ''Downloading '' @ fst kv @ ''... '' @ show_int (snd kv) @ ''%'' @ clear_eol @ [NL]"

text \<open>Lines 102-112: the value of \<^verbatim>\<open>s\<close> at line 113 or 114, from \<^verbatim>\<open>old_lines\<close> and the dict.\<close>

definition render_block :: "nat \<Rightarrow> (string \<times> int) list \<Rightarrow> string" where
  "render_block old_lines reg =
     (let s = concat (map progress_line reg)
      in if length reg \<noteq> 0
         then (let new_lines = count_nl s
               in if new_lines < old_lines
                  then s @ concat (replicate (old_lines - new_lines) (clear_eol @ [NL]))
                  else s)
         else s)"

text \<open>One pass of the loop at lines 97-115 on its own: what it prints and the new \<^verbatim>\<open>s\<close>.\<close>

definition render_tick :: "string \<Rightarrow> (string \<times> int) list \<Rightarrow> string \<times> string" where
  "render_tick s reg =
     (let old_lines = count_nl s;
          s' = render_block old_lines reg
      in ((if old_lines \<noteq> 0 then cursor_up old_lines else []) @
          (if length reg \<noteq> 0 then s' else []), s'))"

subsection \<open>The terminal\<close>

text \<open>
  A terminal that understands what the renderer prints: ordinary characters, the line feed,
  \<^verbatim>\<open>ESC [ n F\<close> (cursor to the start of the line \<open>n\<close> lines up) and \<^verbatim>\<open>ESC [ K\<close> (erase from
  the cursor to the end of the line).  The screen is unbounded: lines do not wrap and nothing
  scrolls away.
\<close>

datatype parser = PText | PEsc | PCsi nat

record terminal =
  rows :: "string list"
  crow :: nat
  ccol :: nat
  pstate :: parser

definition on_row :: "string list \<Rightarrow> nat \<Rightarrow> (string \<Rightarrow> string) \<Rightarrow> string list" where
  "on_row rs r f = (let rs' = rs @ replicate (Suc r - length rs) [] in rs'[r := f (rs' ! r)])"

definition put_at :: "nat \<Rightarrow> char \<Rightarrow> string \<Rightarrow> string" where
  "put_at c x line =
     (if c < length line then line[c := x]
      else line @ replicate (c - length line) CHR '' '' @ [x])"

definition term_putc :: "terminal \<Rightarrow> char \<Rightarrow> terminal" where
  "term_putc t x =
     (case pstate t of
        PText \<Rightarrow>
          if x = ESC then t\<lparr>pstate := PEsc\<rparr>
          else if x = NL then t\<lparr>rows := on_row (rows t) (Suc (crow t)) (\<lambda>l. l),
                                 crow := Suc (crow t), ccol := 0\<rparr>
          else t\<lparr>rows := on_row (rows t) (crow t) (put_at (ccol t) x), ccol := Suc (ccol t)\<rparr>
      | PEsc \<Rightarrow> if x = CHR ''['' then t\<lparr>pstate := PCsi 0\<rparr> else t\<lparr>pstate := PText\<rparr>
      | PCsi n \<Rightarrow>
          if is_digit x then t\<lparr>pstate := PCsi (10 * n + digit_val x)\<rparr>
          else if x = CHR ''F'' then t\<lparr>crow := crow t - max n 1, ccol := 0, pstate := PText\<rparr>
          else if x = CHR ''K''
          then t\<lparr>rows := on_row (rows t) (crow t) (take (ccol t)), pstate := PText\<rparr>
          else t\<lparr>pstate := PText\<rparr>)"

definition term_write :: "terminal \<Rightarrow> string \<Rightarrow> terminal" where
  "term_write t s = foldl term_putc t s"

definition blank_terminal :: terminal where
  "blank_terminal = \<lparr>rows = [[]], crow = 0, ccol = 0, pstate = PText\<rparr>"

section \<open>The threads of \<^verbatim>\<open>main\<close>, lines 117-157\<close>

datatype tid = Producer | Worker nat | Renderer

text \<open>
  Where a worker is: at the loop test (line 60), at \<^verbatim>\<open>queue.get\<close> (line 62), inside the loop
  body for a task with the statements already run and those still to run, returned, or dead
  from an exception.
\<close>

datatype wstatus =
    WLoop
  | WGet
  | WBusy task "action list" "action list"
  | WExited
  | WCrashed task "action list" py_error

text \<open>
  Where the main thread is: at the \<^verbatim>\<open>for\<close> statement (line 139) with the episodes still to
  come, at \<^verbatim>\<open>queue.put\<close> (line 146), at \<^verbatim>\<open>queue.join()\<close> (line 152), at line 153, at the
  joins of lines 155-157, or done.
\<close>

datatype mstatus =
    MLoop "episode list"
  | MPut task "episode list"
  | MJoin
  | MSetFinish
  | MJoinThreads
  | MDone

text \<open>
  Where the renderer is: at the loop test (line 97) with \<^verbatim>\<open>s\<close>, at \<^verbatim>\<open>lock.acquire()\<close>
  (line 104) with \<^verbatim>\<open>old_lines\<close>, at line 105 holding the lock, at \<^verbatim>\<open>lock.release()\<close>
  (line 114), at \<^verbatim>\<open>sleep\<close> (line 115), or returned.
\<close>

datatype rstatus =
    RLoop string
  | RAcquire nat
  | RRender nat
  | RRelease string
  | RSleep string
  | RExited

text \<open>
  The shared objects and the threads.  \<open>enqueued\<close> and \<open>requested\<close> are history variables:
  every task ever put into the queue and every task for which \<^verbatim>\<open>requests.get\<close> was called.
\<close>

record state =
  queue :: "task list"
  unfinished_tasks :: nat
  currently_downloading :: "(string \<times> int) list"
  lock :: "tid option"
  finish :: bool
  files :: "(string \<times> bytes) list"
  stdout :: string
  workers :: "wstatus list"
  producer :: mstatus
  renderer :: rstatus
  enqueued :: "task list"
  requested :: "task list"

datatype 'a outcome = Blocked | Raised py_error | Next 'a

definition file_content :: "(string \<times> bytes) list \<Rightarrow> string \<Rightarrow> bytes" where
  "file_content fs p = (case map_of fs p of None \<Rightarrow> [] | Some c \<Rightarrow> c)"

definition path_exists :: "(string \<times> bytes) list \<Rightarrow> string \<Rightarrow> bool" where
  "path_exists fs p = (p \<in> fst ` set fs)"

text \<open>The effect of one statement of worker \<open>w\<close>, working on task \<open>i\<close>, on the shared objects.\<close>

fun act :: "nat \<Rightarrow> task \<Rightarrow> action \<Rightarrow> state \<Rightarrow> state outcome" where
  "act w i LockAcquire s =
     (if lock s = None then Next (s\<lparr>lock := Some (Worker w)\<rparr>) else Blocked)"
| "act w i LockRelease s = Next (s\<lparr>lock := None\<rparr>)"
| "act w i (RegSet k v) s =
     Next (s\<lparr>currently_downloading := AList.update k v (currently_downloading s)\<rparr>)"
| "act w i (RegDel k) s =
     (if k \<in> fst ` set (currently_downloading s)
      then Next (s\<lparr>currently_downloading := AList.delete k (currently_downloading s)\<rparr>)
      else Raised KeyError)"
| "act w i (HttpGet u) s = Next (s\<lparr>requested := requested s @ [i]\<rparr>)"
| "act w i ReadChunk s = Next s"
| "act w i (FileOpen p) s = Next (s\<lparr>files := AList.update p [] (files s)\<rparr>)"
| "act w i (FileWrite p c) s =
     Next (s\<lparr>files := AList.update p (file_content (files s) p @ c) (files s)\<rparr>)"
| "act w i (FileClose p) s = Next s"
| "act w i TaskDone s =
     (if unfinished_tasks s = 0 then Raised ValueError
      else Next (s\<lparr>unfinished_tasks := unfinished_tasks s - 1\<rparr>))"
| "act w i (Raise err) s = Raised err"

text \<open>A worker running a list of statements with no other thread in between.\<close>

fun run_actions :: "nat \<Rightarrow> task \<Rightarrow> action list \<Rightarrow> state \<Rightarrow> state outcome" where
  "run_actions w i [] s = Next s"
| "run_actions w i (a # as) s =
     (case act w i a s of
        Next s' \<Rightarrow> run_actions w i as s'
      | Blocked \<Rightarrow> Blocked
      | Raised err \<Rightarrow> Raised err)"

text \<open>One step of worker \<open>w\<close>; \<open>None\<close> when the thread cannot move.\<close>

definition step_worker :: "(task \<Rightarrow> download_env) \<Rightarrow> nat \<Rightarrow> state \<Rightarrow> state option" where
  "step_worker env w s =
     (if length (workers s) \<le> w then None
      else case workers s ! w of
        WLoop \<Rightarrow> Some (s\<lparr>workers := (workers s)[w := (if finish s then WExited else WGet)]\<rparr>)
      | WGet \<Rightarrow>
          (case queue s of
             [] \<Rightarrow> Some (s\<lparr>workers := (workers s)[w := WLoop]\<rparr>)
           | i # q \<Rightarrow>
               Some (s\<lparr>queue := q,
                       workers := (workers s)[w := WBusy i [] (worker_task (env i) i)]\<rparr>))
      | WBusy i done [] \<Rightarrow> Some (s\<lparr>workers := (workers s)[w := WLoop]\<rparr>)
      | WBusy i done (a # rest) \<Rightarrow>
          (case act w i a s of
             Blocked \<Rightarrow> None
           | Raised err \<Rightarrow> Some (s\<lparr>workers := (workers s)[w := WCrashed i done err]\<rparr>)
           | Next s' \<Rightarrow>
               Some (s'\<lparr>workers := (workers s')[w := (if rest = [] then WLoop
                                                      else WBusy i (done @ [a]) rest)]\<rparr>))
      | WExited \<Rightarrow> None
      | WCrashed i done err \<Rightarrow> None)"

fun terminated :: "wstatus \<Rightarrow> bool" where
  "terminated WExited = True"
| "terminated (WCrashed i done err) = True"
| "terminated w = False"

text \<open>One step of the main thread; \<open>output\<close> is \<^verbatim>\<open>args.output\<close>.\<close>

definition step_producer :: "string \<Rightarrow> state \<Rightarrow> state option" where
  "step_producer output s =
     (case producer s of
        MLoop [] \<Rightarrow> Some (s\<lparr>producer := MJoin\<rparr>)
      | MLoop (ep # eps) \<Rightarrow>
          (let i = make_task output ep
           in if path_exists (files s) (filename i) then Some (s\<lparr>producer := MLoop eps\<rparr>)
              else Some (s\<lparr>producer := MPut i eps\<rparr>))
      | MPut i eps \<Rightarrow>
          Some (s\<lparr>queue := queue s @ [i], unfinished_tasks := Suc (unfinished_tasks s),
                  enqueued := enqueued s @ [i], producer := MLoop eps\<rparr>)
      | MJoin \<Rightarrow> if unfinished_tasks s = 0 then Some (s\<lparr>producer := MSetFinish\<rparr>) else None
      | MSetFinish \<Rightarrow> Some (s\<lparr>finish := True, producer := MJoinThreads\<rparr>)
      | MJoinThreads \<Rightarrow>
          if list_all terminated (workers s) \<and> renderer s = RExited
          then Some (s\<lparr>producer := MDone\<rparr>) else None
      | MDone \<Rightarrow> None)"

text \<open>One step of the renderer.\<close>

definition step_renderer :: "state \<Rightarrow> state option" where
  "step_renderer s =
     (case renderer s of
        RLoop old \<Rightarrow>
          if finish s then Some (s\<lparr>renderer := RExited\<rparr>)
          else let old_lines = count_nl old
               in Some (s\<lparr>stdout := stdout s @ (if old_lines \<noteq> 0 then cursor_up old_lines else []),
                          renderer := RAcquire old_lines\<rparr>)
      | RAcquire old_lines \<Rightarrow>
          if lock s = None then Some (s\<lparr>lock := Some Renderer, renderer := RRender old_lines\<rparr>)
          else None
      | RRender old_lines \<Rightarrow>
          (let reg = currently_downloading s; s' = render_block old_lines reg
           in Some (s\<lparr>stdout := stdout s @ (if length reg \<noteq> 0 then s' else []),
                      renderer := RRelease s'\<rparr>))
      | RRelease new \<Rightarrow> Some (s\<lparr>lock := None, renderer := RSleep new\<rparr>)
      | RSleep new \<Rightarrow> Some (s\<lparr>renderer := RLoop new\<rparr>)
      | RExited \<Rightarrow> None)"

fun step :: "(task \<Rightarrow> download_env) \<Rightarrow> string \<Rightarrow> tid \<Rightarrow> state \<Rightarrow> state option" where
  "step env output Producer s = step_producer output s"
| "step env output (Worker w) s = step_worker env w s"
| "step env output Renderer s = step_renderer s"

text \<open>A schedule names the thread that runs next; a thread that cannot move is skipped.\<close>

definition sched_step :: "(task \<Rightarrow> download_env) \<Rightarrow> string \<Rightarrow> state \<Rightarrow> tid \<Rightarrow> state" where
  "sched_step env output s t = (case step env output t s of None \<Rightarrow> s | Some s' \<Rightarrow> s')"

definition exec :: "(task \<Rightarrow> download_env) \<Rightarrow> string \<Rightarrow> tid list \<Rightarrow> state \<Rightarrow> state" where
  "exec env output sched s = foldl (sched_step env output) s sched"

text \<open>
  The state at line 139: \<open>W\<close> workers and the renderer started, nothing queued, \<open>fs\<close> the files
  on disk, \<open>eps\<close> what \<^verbatim>\<open>query_episodes()\<close> is going to yield.
\<close>

definition init :: "nat \<Rightarrow> episode list \<Rightarrow> (string \<times> bytes) list \<Rightarrow> state" where
  "init W eps fs =
     \<lparr>queue = [], unfinished_tasks = 0, currently_downloading = [], lock = None,
      finish = False, files = fs, stdout = [], workers = replicate W WLoop,
      producer = MLoop eps, renderer = RLoop [], enqueued = [], requested = []\<rparr>"

subsection \<open>Notions used by the properties\<close>

text \<open>\<^verbatim>\<open>queue.join()\<close> has returned.\<close>

fun join_returned :: "mstatus \<Rightarrow> bool" where
  "join_returned MSetFinish = True"
| "join_returned MJoinThreads = True"
| "join_returned MDone = True"
| "join_returned m = False"

text \<open>A worker has put the entry for its task into the registry and not yet deleted it.\<close>

fun sets_key :: "string \<Rightarrow> action \<Rightarrow> bool" where
  "sets_key k (RegSet k' v) = (k' = k)"
| "sets_key k a = False"

definition entry_live :: "string \<Rightarrow> action list \<Rightarrow> bool" where
  "entry_live k done = (list_ex (sets_key k) done \<and> \<not> List.member done (RegDel k))"

fun downloading :: "string \<Rightarrow> wstatus \<Rightarrow> bool" where
  "downloading k (WBusy i done todo) = (display_filename i = k \<and> entry_live k done)"
| "downloading k w = False"

fun died_downloading :: "string \<Rightarrow> wstatus \<Rightarrow> bool" where
  "died_downloading k (WCrashed i done err) = (display_filename i = k \<and> entry_live k done)"
| "died_downloading k w = False"

text \<open>A worker has taken a task from the queue and not yet called \<^verbatim>\<open>task_done\<close> for it.\<close>

fun holds_task :: "wstatus \<Rightarrow> bool" where
  "holds_task (WBusy i done todo) = True"
| "holds_task (WCrashed i done err) = True"
| "holds_task w = False"

text \<open>
  The statements that workers and main thread still have to run before \<^verbatim>\<open>queue.join()\<close> has
  returned, counting a \<^verbatim>\<open>put\<close> for every episode still to come.
\<close>

definition task_cost :: "(task \<Rightarrow> download_env) \<Rightarrow> task \<Rightarrow> nat" where
  "task_cost env i = Suc (length (worker_task (env i) i))"

fun worker_left :: "wstatus \<Rightarrow> nat" where
  "worker_left (WBusy i done todo) = length todo"
| "worker_left w = 0"

fun producer_left :: "(task \<Rightarrow> download_env) \<Rightarrow> string \<Rightarrow> mstatus \<Rightarrow> nat" where
  "producer_left env output (MLoop eps) =
     2 + sum_list (map (\<lambda>ep. 2 + task_cost env (make_task output ep)) eps)"
| "producer_left env output (MPut i eps) =
     3 + task_cost env i + sum_list (map (\<lambda>ep. 2 + task_cost env (make_task output ep)) eps)"
| "producer_left env output MJoin = 1"
| "producer_left env output m = 0"

definition work_left :: "(task \<Rightarrow> download_env) \<Rightarrow> string \<Rightarrow> state \<Rightarrow> nat" where
  "work_left env output s =
     producer_left env output (producer s)
     + sum_list (map (task_cost env) (queue s))
     + sum_list (map worker_left (workers s))"

text \<open>A worker at the loop test or finding the queue empty: polling, no work done.\<close>

definition polling :: "state \<Rightarrow> tid \<Rightarrow> bool" where
  "polling s t =
     (case t of
        Worker w \<Rightarrow> w < length (workers s) \<and>
                    (workers s ! w = WLoop \<or> (workers s ! w = WGet \<and> queue s = []))
      | Producer \<Rightarrow> False
      | Renderer \<Rightarrow> True)"


subsection \<open>The shape of a task's statements\<close>

text \<open>
  Where a task is with respect to its registry entry: the entry not yet set, set, or deleted.
  \<open>proto k ph as\<close> says that the statements \<open>as\<close>, started in phase \<open>ph\<close>, only touch the key \<open>k\<close>,
  never set the entry after deleting it, delete it only when it is set, and end either with
  \<^verbatim>\<open>task_done\<close> after the deletion or with an exception while the entry is set.
\<close>

datatype phase = Before | Live | After

fun proto :: "string \<Rightarrow> phase \<Rightarrow> action list \<Rightarrow> bool" where
  "proto k ph [] = False"
| "proto k ph (TaskDone # as) = (as = [] \<and> ph = After)"
| "proto k ph (Raise err # as) = (as = [] \<and> ph = Live)"
| "proto k ph (RegSet k' v # as) = (k' = k \<and> ph \<noteq> After \<and> proto k Live as)"
| "proto k ph (RegDel k' # as) = (k' = k \<and> ph = Live \<and> proto k After as)"
| "proto k ph (a # as) = proto k ph as"

definition phase_of :: "string \<Rightarrow> action list \<Rightarrow> phase" where
  "phase_of k done =
     (if List.member done (RegDel k) then After
      else if list_ex (sets_key k) done then Live else Before)"

text \<open>
  \<open>scope_ok h as\<close>: started with the lock held (\<open>h\<close>) or not, the statements \<open>as\<close> acquire
  only when they do not hold the lock, release only when they hold it, do no network or disk
  I/O while they hold it, and end without it.
\<close>

fun scope_ok :: "bool \<Rightarrow> action list \<Rightarrow> bool" where
  "scope_ok h [] = (\<not> h)"
| "scope_ok h (LockAcquire # as) = (\<not> h \<and> scope_ok True as)"
| "scope_ok h (LockRelease # as) = (h \<and> scope_ok False as)"
| "scope_ok h (a # as) = (\<not> (h \<and> io_action a) \<and> scope_ok h as)"

fun renderer_holds :: "rstatus \<Rightarrow> bool" where
  "renderer_holds (RRender old_lines) = True"
| "renderer_holds (RRelease new) = True"
| "renderer_holds r = False"

text \<open>The tasks that are somewhere between the \<^verbatim>\<open>for\<close> loop of \<^verbatim>\<open>main\<close> and \<^verbatim>\<open>task_done\<close>.\<close>

fun pending :: "string \<Rightarrow> mstatus \<Rightarrow> task list" where
  "pending output (MLoop eps) = map (make_task output) eps"
| "pending output (MPut i eps) = i # map (make_task output) eps"
| "pending output m = []"

fun worker_has_key :: "string \<Rightarrow> wstatus \<Rightarrow> nat" where
  "worker_has_key k (WBusy i done todo) = (if display_filename i = k then 1 else 0)"
| "worker_has_key k (WCrashed i done err) = (if display_filename i = k then 1 else 0)"
| "worker_has_key k w = 0"

definition key_count :: "string \<Rightarrow> string \<Rightarrow> state \<Rightarrow> nat" where
  "key_count output k s =
     sum_list (map (worker_has_key k) (workers s))
     + count_list (map display_filename (queue s)) k
     + count_list (map display_filename (pending output (producer s))) k"

fun holds_nat :: "wstatus \<Rightarrow> nat" where
  "holds_nat (WBusy i done todo) = 1"
| "holds_nat (WCrashed i done err) = 1"
| "holds_nat w = 0"

definition holding_count :: "state \<Rightarrow> nat" where
  "holding_count s = sum_list (map holds_nat (workers s))"

subsection \<open>Invariants\<close>

fun wf_status :: "wstatus \<Rightarrow> bool" where
  "wf_status (WBusy i done todo) =
     proto (display_filename i) (phase_of (display_filename i) done) todo"
| "wf_status w = True"

fun lock_ok :: "tid option \<Rightarrow> nat \<Rightarrow> wstatus \<Rightarrow> bool" where
  "lock_ok l w (WBusy i done todo) = scope_ok (l = Some (Worker w)) todo"
| "lock_ok l w (WCrashed i done err) = True"
| "lock_ok l w ws = (l \<noteq> Some (Worker w))"

definition lock_inv :: "state \<Rightarrow> bool" where
  "lock_inv s =
     ((\<forall>w < length (workers s). lock_ok (lock s) w (workers s ! w)) \<and>
      (lock s = Some Renderer) = renderer_holds (renderer s) \<and>
      lock s \<noteq> Some Producer \<and>
      (\<forall>w. lock s = Some (Worker w) \<longrightarrow> w < length (workers s)))"

fun holds_entry :: "string \<Rightarrow> wstatus \<Rightarrow> bool" where
  "holds_entry k (WBusy i done todo) =
     (display_filename i = k \<and> phase_of k done = Live)"
| "holds_entry k (WCrashed i done err) =
     (display_filename i = k \<and> phase_of k done = Live)"
| "holds_entry k w = False"

definition owner_inv :: "state \<Rightarrow> bool" where
  "owner_inv s =
     (distinct (map fst (currently_downloading s)) \<and>
      (\<forall>k \<in> fst ` set (currently_downloading s).
         \<exists>w < length (workers s). holds_entry k (workers s ! w)))"

fun task_of :: "wstatus \<Rightarrow> task list" where
  "task_of (WBusy i done todo) = [i]"
| "task_of (WCrashed i done err) = [i]"
| "task_of w = []"

text \<open>
  What is known about the tasks at any moment of a run that started with the episodes \<open>eps\<close>
  and the files \<open>fs\<close>: no file has disappeared, every task queued so far comes from an
  episode whose file did not exist at the start, and the tasks in the queue, at the workers and
  in the log of requests have all been queued.
\<close>

fun producer_ok :: "string \<Rightarrow> episode list \<Rightarrow> (string \<times> bytes) list \<Rightarrow> mstatus \<Rightarrow> bool" where
  "producer_ok output eps fs (MLoop eps') = (set eps' \<subseteq> set eps)"
| "producer_ok output eps fs (MPut i eps') =
     (set eps' \<subseteq> set eps \<and> i \<in> make_task output ` set eps \<and> \<not> path_exists fs (filename i))"
| "producer_ok output eps fs m = True"

definition history_inv :: "string \<Rightarrow> episode list \<Rightarrow> (string \<times> bytes) list \<Rightarrow> state \<Rightarrow> bool" where
  "history_inv output eps fs s =
     (fst ` set fs \<subseteq> fst ` set (files s) \<and>
      (\<forall>i \<in> set (enqueued s). i \<in> make_task output ` set eps \<and> \<not> path_exists fs (filename i)) \<and>
      set (queue s) \<subseteq> set (enqueued s) \<and>
      (\<forall>ws \<in> set (workers s). set (task_of ws) \<subseteq> set (enqueued s)) \<and>
      set (requested s) \<subseteq> set (enqueued s) \<and>
      producer_ok output eps fs (producer s))"

fun crashed :: "wstatus \<Rightarrow> bool" where
  "crashed (WCrashed i done err) = True"
| "crashed w = False"

section \<open>Example inputs\<close>

definition example_episode :: episode where
  "example_episode = \<lparr>title = ''Ep 1'', url = ''https://example.org/audio/ep1.mp3''\<rparr>"

definition example_episode2 :: episode where
  "example_episode2 = \<lparr>title = ''Ep 2'', url = ''https://example.org/audio/ep2.mp3''\<rparr>"

definition example_episode3 :: episode where
  "example_episode3 = \<lparr>title = ''Ep 3'', url = ''https://example.org/audio/ep3.mp3''\<rparr>"

definition example_task :: task where
  "example_task =
     \<lparr>task_url = ''https://example.org/audio/ep1.mp3'', filename = ''episodes/Ep 1.mp3'',
      display_filename = ''Ep 1.mp3''\<rparr>"

text \<open>A response of three bytes in one piece, with the right \<^verbatim>\<open>content-length\<close>.\<close>

definition env_ok :: download_env where
  "env_ok =
     \<lparr>connect_fails = False, status_code = 200, content_length = Some ''3'',
      iter_content = (\<lambda>n. [''abc'']), stream_fails_at = None, open_fails = False,
      buffer_size = 8192, write_fails_at = None, close_fails = False\<rparr>"

text \<open>The same three bytes arriving in three pieces, as with a chunked transfer.\<close>

definition env_chunked :: download_env where
  "env_chunked = env_ok\<lparr>iter_content := (\<lambda>n. [''a'', ''b'', ''c''])\<rparr>"

text \<open>Two hundred bytes in a piece of 115 and a piece of 85 bytes.\<close>

definition env_two_pieces :: download_env where
  "env_two_pieces =
     env_ok\<lparr>content_length := Some ''200'',
            iter_content := (\<lambda>n. [replicate 115 CHR ''x'', replicate 85 CHR ''x''])\<rparr>"


definition env_no_length :: download_env where
  "env_no_length = env_ok\<lparr>content_length := None\<rparr>"



text \<open>Pieces that are longer than the declared length, as with a compressed transfer.\<close>

definition env_short_length :: download_env where
  "env_short_length = env_ok\<lparr>content_length := Some ''1'', iter_content := (\<lambda>n. [''ab''])\<rparr>"

definition env_negative_length :: download_env where
  "env_negative_length = env_ok\<lparr>content_length := Some ''-1'', iter_content := (\<lambda>n. [''a''])\<rparr>"

section \<open>Rounding\<close>

lemma rhe_of_int: "rhe (of_int n) = n"
  by (simp add: rhe_def)

lemma rhe_floor_le: "\<lfloor>r\<rfloor> \<le> rhe r"
  by (simp add: rhe_def Let_def)

lemma rhe_le_ceil: "rhe r \<le> \<lfloor>r\<rfloor> + 1"
  by (simp add: rhe_def Let_def)

lemma rhe_mono:
  assumes "r \<le> r'"
  shows "rhe r \<le> rhe r'"
proof (cases "\<lfloor>r\<rfloor> = \<lfloor>r'\<rfloor>")
  case True
  with assms show ?thesis by (auto simp: rhe_def Let_def)
next
  case False
  with floor_mono[OF assms] have "\<lfloor>r\<rfloor> < \<lfloor>r'\<rfloor>" by linarith
  then show ?thesis using rhe_le_ceil[of r] rhe_floor_le[of r'] by linarith
qed

lemma two_powi_add: "(2::rat) powi (m + n) = 2 powi m * 2 powi n"
  by (simp add: power_int_add)

lemma two_powi_pos: "0 < (2::rat) powi n"
  by (simp add: zero_less_power_int)

lemma bitlen_powi_bounds:
  assumes "0 < a"
  shows "2 powi (bitlen a - 1) \<le> (of_int a :: rat)"
    and "(of_int a :: rat) < 2 powi (bitlen a)"
proof -
  have ge1: "1 \<le> bitlen a" using assms bitlen_eq_zero_iff[of a] bitlen_nonneg[of a] by linarith
  have lo: "(2::int) ^ nat (bitlen a - 1) \<le> a" and hi: "a < 2 ^ nat (bitlen a)"
    using bitlen_bounds[OF assms] by auto
  have "(2::rat) powi (bitlen a - 1) = 2 ^ nat (bitlen a - 1)"
    using ge1 by (simp add: power_int_def)
  also have "\<dots> = of_int (2 ^ nat (bitlen a - 1))" by simp
  also have "\<dots> \<le> of_int a" using lo by (simp only: of_int_le_iff)
  finally show "2 powi (bitlen a - 1) \<le> (of_int a :: rat)" .
  have "(of_int a :: rat) < of_int (2 ^ nat (bitlen a))" using hi by (simp only: of_int_less_iff)
  also have "\<dots> = 2 ^ nat (bitlen a)" by simp
  also have "\<dots> = 2 powi (bitlen a)" using ge1 by (simp add: power_int_def)
  finally show "(of_int a :: rat) < 2 powi (bitlen a)" .
qed

lemma expo_bounds:
  assumes "0 < r"
  shows "2 powi (expo r) \<le> r" and "r < 2 powi (expo r + 1)"
proof -
  obtain a b where q: "quotient_of r = (a, b)" by (cases "quotient_of r")
  have b: "0 < b" using q by (rule quotient_of_denom_pos)
  have r: "r = of_int a / of_int b" using q by (rule quotient_of_div)
  have a: "0 < a" using assms b r by (simp add: zero_less_divide_iff)
  define d where "d = bitlen a - bitlen b"
  have lo: "2 powi (d - 1) \<le> r"
  proof -
    have "2 powi (d - 1) * (of_int b :: rat) \<le> 2 powi (d - 1) * 2 powi (bitlen b)"
      using bitlen_powi_bounds(2)[OF b] two_powi_pos[of "d - 1"] by simp
    also have "\<dots> = 2 powi ((d - 1) + bitlen b)" by (simp only: two_powi_add)
    also have "(d - 1) + bitlen b = bitlen a - 1" by (simp add: d_def)
    also have "2 powi (bitlen a - 1) \<le> (of_int a :: rat)" using bitlen_powi_bounds(1)[OF a] .
    finally show ?thesis using b by (simp add: r pos_le_divide_eq)
  qed
  have hi: "r < 2 powi (d + 1)"
  proof -
    have "(of_int a :: rat) < 2 powi (bitlen a)" using bitlen_powi_bounds(2)[OF a] .
    also have "bitlen a = (d + 1) + (bitlen b - 1)" by (simp add: d_def)
    also have "(2::rat) powi ((d + 1) + (bitlen b - 1)) = 2 powi (d + 1) * 2 powi (bitlen b - 1)"
      by (simp only: two_powi_add)
    also have "\<dots> \<le> 2 powi (d + 1) * of_int b"
      using bitlen_powi_bounds(1)[OF b] two_powi_pos[of "d + 1"] by simp
    finally show ?thesis using b by (simp add: r pos_divide_less_eq)
  qed
  have e: "expo r = (if r < 2 powi d then d - 1 else d)"
    by (simp add: expo_def q Let_def d_def)
  show "2 powi (expo r) \<le> r" using lo by (simp add: e)
  show "r < 2 powi (expo r + 1)" using hi by (simp add: e)
qed

lemma expo_mono:
  assumes "0 < r" "r \<le> r'"
  shows "expo r \<le> expo r'"
proof (rule ccontr)
  assume "\<not> expo r \<le> expo r'"
  then have "expo r' + 1 \<le> expo r" by simp
  then have "(2::rat) powi (expo r' + 1) \<le> 2 powi (expo r)"
    by (intro power_int_increasing) auto
  moreover have "r' < 2 powi (expo r' + 1)" using assms by (intro expo_bounds) auto
  moreover have "2 powi (expo r) \<le> r" using assms by (intro expo_bounds)
  ultimately show False using assms by linarith
qed

lemma rn_pos_eq:
  "0 < r \<Longrightarrow> rn r = of_int (rhe (r / 2 powi (max (expo r - 52) (- 1074)))) * 2 powi (max (expo r - 52) (- 1074))"
  by (simp add: rn_def Let_def)

lemma rn_zero: "rn 0 = 0"
  by (simp add: rn_def)

lemma rn_nonneg:
  assumes "0 \<le> r"
  shows "0 \<le> rn r"
proof (cases "r = 0")
  case True
  then show ?thesis by (simp add: rn_zero)
next
  case False
  with assms have pos: "0 < r" by simp
  define q where "q = max (expo r - 52) (- 1074)"
  have "0 \<le> r / 2 powi q" using pos two_powi_pos[of q] by simp
  then have "0 \<le> \<lfloor>r / 2 powi q\<rfloor>" by simp
  then have "0 \<le> rhe (r / 2 powi q)" using rhe_floor_le[of "r / 2 powi q"] by linarith
  then have "0 \<le> (of_int (rhe (r / 2 powi q)) :: rat) * 2 powi q"
    using two_powi_pos[of q] by simp
  then show ?thesis using pos by (simp add: rn_pos_eq q_def)
qed

lemma rn_mono_pos:
  assumes "0 < r" "r \<le> r'"
  shows "rn r \<le> rn r'"
proof -
  define q where "q = max (expo r - 52) (- 1074)"
  define q' where "q' = max (expo r' - 52) (- 1074)"
  have pos': "0 < r'" using assms by simp
  have R: "rn r = of_int (rhe (r / 2 powi q)) * 2 powi q"
    using assms(1) by (simp add: rn_pos_eq q_def)
  have R': "rn r' = of_int (rhe (r' / 2 powi q')) * 2 powi q'"
    using pos' by (simp add: rn_pos_eq q'_def)
  have qq: "q \<le> q'" using expo_mono[OF assms] by (simp add: q_def q'_def)
  show ?thesis
  proof (cases "q = q'")
    case True
    have "r / 2 powi q \<le> r' / 2 powi q"
      using assms(2) two_powi_pos[of q] by (simp add: divide_right_mono)
    then have "rhe (r / 2 powi q) \<le> rhe (r' / 2 powi q)" by (rule rhe_mono)
    then have "(of_int (rhe (r / 2 powi q)) :: rat) \<le> of_int (rhe (r' / 2 powi q))"
      by (simp only: of_int_le_iff)
    then show ?thesis using two_powi_pos[of q] by (simp add: R R' True[symmetric])
  next
    case False
    with qq have lt: "q + 1 \<le> q'" by simp
    then have q'e: "q' = expo r' - 52" by (simp add: q'_def q_def)
    have "r < 2 powi (expo r + 1)" using assms(1) by (rule expo_bounds)
    also have "(2::rat) powi (expo r + 1) \<le> 2 powi (q + 53)"
      by (intro power_int_increasing) (auto simp: q_def)
    also have "(2::rat) powi (q + 53) = 2 powi q * 2 powi 53" by (simp only: two_powi_add)
    finally have "r / 2 powi q \<le> 2 powi 53"
      using two_powi_pos[of q] by (simp add: pos_divide_le_eq mult.commute)
    also have "(2::rat) powi 53 = of_int (2 ^ 53)" by simp
    finally have "rhe (r / 2 powi q) \<le> 2 ^ 53"
      using rhe_mono[of "r / 2 powi q" "of_int (2 ^ 53)"] by (simp only: rhe_of_int)
    then have "(of_int (rhe (r / 2 powi q)) :: rat) \<le> of_int (2 ^ 53)"
      by (simp only: of_int_le_iff)
    then have "rn r \<le> of_int (2 ^ 53) * 2 powi q"
      using two_powi_pos[of q] by (simp only: R mult_le_cancel_right_pos)
    also have "(of_int (2 ^ 53) :: rat) = 2 powi 53" by simp
    also have "(2::rat) powi 53 * 2 powi q = 2 powi (53 + q)" by (simp only: two_powi_add)
    also have "(2::rat) powi (53 + q) \<le> 2 powi (52 + q')"
      using lt by (intro power_int_increasing) auto
    also have "(2::rat) powi (52 + q') = 2 powi 52 * 2 powi q'" by (simp only: two_powi_add)
    finally have up: "rn r \<le> 2 powi 52 * 2 powi q'" .
    have "(2::rat) powi 52 * 2 powi q' = 2 powi (expo r')"
      by (simp only: flip: two_powi_add) (simp add: q'e)
    also have "\<dots> \<le> r'" using pos' by (rule expo_bounds)
    finally have "of_int (2 ^ 52) \<le> r' / 2 powi q'"
      using two_powi_pos[of q'] by (simp add: pos_le_divide_eq)
    then have "2 ^ 52 \<le> rhe (r' / 2 powi q')"
      using rhe_mono[of "of_int (2 ^ 52)" "r' / 2 powi q'"] by (simp only: rhe_of_int)
    then have "(of_int (2 ^ 52) :: rat) \<le> of_int (rhe (r' / 2 powi q'))"
      by (simp only: of_int_le_iff)
    then have "of_int (2 ^ 52) * 2 powi q' \<le> rn r'"
      using two_powi_pos[of q'] by (simp only: R' mult_le_cancel_right_pos)
    moreover have "(of_int (2 ^ 52) :: rat) = 2 powi 52" by simp
    ultimately show ?thesis using up by simp
  qed
qed

lemma rn_mono:
  assumes "0 \<le> r" "r \<le> r'"
  shows "rn r \<le> rn r'"
proof (cases "r = 0")
  case True
  then show ?thesis using assms rn_nonneg[of r'] by (simp add: rn_zero)
next
  case False
  then show ?thesis using assms by (intro rn_mono_pos) auto
qed

lemma rn_one: "rn 1 = 1"
  by code_simp

lemma rn_two: "rn 2 = 2"
  by code_simp

lemma rn_hundred: "rn 100 = 100"
  by code_simp

lemma rn_two_hundred: "rn 200 = 200"
  by code_simp

section \<open>The percentage\<close>

lemma float_limit_numeral [code]:
  "float_limit = 179769313486231590772930519078902473361797697894230657273430081157732675805500963132708477322407536021120113879871393357658789768814416622492847430639474124377767893424865485276302219601246094119453082952085005768838150682342462881473913110540827237163350510684586298239947245938479716304835356329624224137216"
  by (simp add: float_limit_def)

lemma percent_zero_length: "percent w 0 = Inl ZeroDivisionError"
  by (simp add: percent_def py_truediv_def)

lemma percent_InrD:
  assumes "percent w l = Inr p"
  shows "l \<noteq> 0" and "p = rhe (rn (rn (of_int w / of_int l) * 100))"
  using assms
  by (auto simp: percent_def py_truediv_def py_fmul_def Let_def
           split: if_splits sum.splits)

lemma percent_mono:
  assumes "0 < l" "0 \<le> w" "w \<le> w'" "percent w l = Inr p" "percent w' l = Inr p'"
  shows "p \<le> p'"
proof -
  have "(of_int w :: rat) / of_int l \<le> of_int w' / of_int l"
    using assms(1,3) by (simp add: divide_right_mono)
  moreover have "0 \<le> (of_int w :: rat) / of_int l" using assms(1,2) by simp
  ultimately have "rn (of_int w / of_int l) \<le> rn (of_int w' / of_int l)" by (intro rn_mono)
  moreover have "0 \<le> rn (of_int w / of_int l)"
    using \<open>0 \<le> (of_int w :: rat) / of_int l\<close> by (rule rn_nonneg)
  ultimately have "rn (rn (of_int w / of_int l) * 100) \<le> rn (rn (of_int w' / of_int l) * 100)"
    by (intro rn_mono) auto
  then show ?thesis
    using percent_InrD(2)[OF assms(4)] percent_InrD(2)[OF assms(5)] by (simp add: rhe_mono)
qed

lemma percent_in_range:
  assumes "0 < l" "0 \<le> w" "w \<le> l"
  shows "\<exists>p. percent w l = Inr p \<and> 0 \<le> p \<and> p \<le> 100"
proof -
  define q where "q = rn (of_int w / of_int l)"
  have r0: "0 \<le> (of_int w :: rat) / of_int l" using assms by simp
  have r1: "(of_int w :: rat) / of_int l \<le> 1" using assms by simp
  have q0: "0 \<le> q" unfolding q_def using r0 by (rule rn_nonneg)
  have q1: "q \<le> 1" unfolding q_def using rn_mono[OF r0 r1] by (simp add: rn_one)
  define v where "v = rn (q * 100)"
  have v0: "0 \<le> v" unfolding v_def using q0 by (intro rn_nonneg) simp
  have v1: "v \<le> 100"
    unfolding v_def using rn_mono[of "q * 100" 100] q0 q1 by (simp add: rn_hundred)
  have big: "(100::rat) < float_limit" by (simp add: float_limit_def)
  have "percent w l = Inr (rhe v)"
    using assms(1) q0 q1 v0 v1 big
    by (simp add: percent_def py_truediv_def py_fmul_def Let_def q_def[symmetric] v_def[symmetric])
  moreover have "0 \<le> rhe v" using rhe_mono[OF v0] by (simp add: rhe_def)
  moreover have "rhe v \<le> 100" using rhe_mono[OF v1] rhe_of_int[of 100] by simp
  ultimately show ?thesis by blast
qed

lemma percent_nonneg:
  assumes "0 < l" "0 \<le> w" "percent w l = Inr p"
  shows "0 \<le> p"
proof -
  have "0 \<le> (of_int w :: rat) / of_int l" using assms by simp
  then have "0 \<le> rn (of_int w / of_int l)" by (rule rn_nonneg)
  then have "0 \<le> rn (rn (of_int w / of_int l) * 100)" by (intro rn_nonneg) simp
  then have "rhe 0 \<le> rhe (rn (rn (of_int w / of_int l) * 100))" by (rule rhe_mono)
  then show ?thesis using percent_InrD(2)[OF assms(3)] by (simp add: rhe_def)
qed

lemma percent_full: "0 < l \<Longrightarrow> percent l l = Inr 100"
  using rhe_of_int[of 100]
  by (simp add: percent_def py_truediv_def py_fmul_def Let_def rn_one rn_hundred float_limit_def)

lemma percent_double: "percent 2 1 = Inr 200"
  using rhe_of_int[of 200]
  by (simp add: percent_def py_truediv_def py_fmul_def Let_def rn_two rn_two_hundred
        float_limit_def)

section \<open>The statements of one task\<close>

declare close_and_raise_def [simp]

lemma download_loop_nonempty [simp]: "download_loop e i len w n cs \<noteq> []"
  by (cases cs) (auto split: sum.splits)

lemma last_download_loop:
  "last (download_loop e i len w n cs) = TaskDone \<or> (\<exists>err. last (download_loop e i len w n cs) = Raise err)"
  by (induction cs arbitrary: w n) (auto split: sum.splits)




lemma last_worker_task:
  "last (worker_task e i) = TaskDone \<or> (\<exists>err. last (worker_task e i) = Raise err)"
  using last_download_loop[of e i _ 0 0 "iter_content e (1024 * 64)"]
  by (auto simp: worker_task_def split: option.splits)


lemma reg_values_append: "reg_values (xs @ ys) = reg_values xs @ reg_values ys"
  by (induction xs rule: reg_values.induct) auto

lemma file_writes_append: "file_writes (xs @ ys) = file_writes xs @ file_writes ys"
  by (induction xs rule: file_writes.induct) auto

lemma loop_values_from:
  "p \<in> set (reg_values (download_loop e i len w n cs)) \<Longrightarrow>
   \<exists>w'. w \<le> w' \<and> w' \<le> w + int (length (concat cs)) \<and> percent w' len = Inr p"
proof (induction cs arbitrary: w n)
  case Nil
  then show ?case by (simp split: if_splits)
next
  case (Cons c cs)
  show ?case
  proof (cases "percent (w + int (length c)) len")
    case (Inl err)
    with Cons.prems show ?thesis by (simp split: if_splits)
  next
    case (Inr p0)
    with Cons.prems have
      "p = p0 \<or> p \<in> set (reg_values (download_loop e i len (w + int (length c)) (Suc n) cs))"
      by (simp split: if_splits)
    then show ?thesis
    proof
      assume "p = p0"
      with Inr have "percent (w + int (length c)) len = Inr p" by simp
      then show ?thesis by (intro exI[of _ "w + int (length c)"]) simp
    next
      assume "p \<in> set (reg_values (download_loop e i len (w + int (length c)) (Suc n) cs))"
      from Cons.IH[OF this] obtain w' where
        "w + int (length c) \<le> w'" "w' \<le> w + int (length c) + int (length (concat cs))"
        "percent w' len = Inr p" by blast
      then show ?thesis by (intro exI[of _ w']) simp
    qed
  qed
qed

lemma loop_values_sorted:
  assumes "0 < len" "0 \<le> w"
  shows "sorted (reg_values (download_loop e i len w n cs))"
  using assms(2)
proof (induction cs arbitrary: w n)
  case Nil
  then show ?case by simp
next
  case (Cons c cs)
  show ?case
  proof (cases "percent (w + int (length c)) len")
    case (Inl err)
    then show ?thesis by simp
  next
    case (Inr p0)
    have w0: "0 \<le> w + int (length c)" using Cons.prems by simp
    have "p0 \<le> p" if "p \<in> set (reg_values (download_loop e i len (w + int (length c)) (Suc n) cs))" for p
    proof -
      from loop_values_from[OF that] obtain w' where
        "w + int (length c) \<le> w'" "percent w' len = Inr p" by blast
      with percent_mono[OF assms(1) w0 _ Inr] show ?thesis by blast
    qed
    then show ?thesis using Inr Cons.IH[OF w0] by simp
  qed
qed

lemma reg_values_worker_task:
  "reg_values (worker_task e i) = [0] \<or>
   (\<exists>h len. content_length e = Some h \<and> py_int h = Some len \<and>
      reg_values (worker_task e i) =
        0 # reg_values (download_loop e i len 0 0 (iter_content e (1024 * 64))))"
  by (auto simp: worker_task_def split: option.splits)

lemma py_int_examples:
  "py_int ''3'' = Some 3" "py_int ''0'' = Some 0" "py_int ''1'' = Some 1" "py_int ''-1'' = Some (- 1)"
  "py_int ''200'' = Some 200"
  by code_simp+

lemma rn_minus_one: "rn (- 1) = - 1"
  by code_simp

lemma rn_minus_hundred: "rn (- 100) = - 100"
  by code_simp

lemma percent_negative: "percent 1 (- 1) = Inr (- 100)"
  using rhe_of_int[of "- 100"]
  by (simp add: percent_def py_truediv_def py_fmul_def Let_def rn_minus_one rn_minus_hundred
        float_limit_def)

lemma percent_examples:
  "percent 1 3 = Inr 33" "percent 2 3 = Inr 67" "percent 115 200 = Inr 57"
  by code_simp+

lemma worker_task_env_ok:
  "worker_task env_ok example_task =
     [LockAcquire, RegSet ''Ep 1.mp3'' 0, LockRelease, HttpGet ''https://example.org/audio/ep1.mp3'',
      FileOpen ''episodes/Ep 1.mp3'', ReadChunk, FileWrite ''episodes/Ep 1.mp3'' ''abc'',
      LockAcquire, RegSet ''Ep 1.mp3'' 100, LockRelease, FileClose ''episodes/Ep 1.mp3'',
      LockAcquire, RegDel ''Ep 1.mp3'', LockRelease, TaskDone]"
  by (simp add: worker_task_def env_ok_def example_task_def py_int_examples percent_full)












lemma file_content_update [simp]: "file_content (AList.update p c fs) p = c"
  by (simp add: file_content_def update_conv')

lemma file_content_update_other [simp]: "p \<noteq> q \<Longrightarrow> file_content (AList.update q c fs) p = file_content fs p"
  by (simp add: file_content_def update_conv')

lemma dom_update_key [simp]: "k \<in> fst ` set (AList.update k v al)"
  by (simp add: dom_update)

lemma run_actions_append:
  "run_actions w i (xs @ ys) s =
     (case run_actions w i xs s of Next s' \<Rightarrow> run_actions w i ys s' | Blocked \<Rightarrow> Blocked
      | Raised err \<Rightarrow> Raised err)"
  by (induction xs arbitrary: s) (auto split: outcome.splits)

lemma download_loop_pass:
  assumes "stream_fails_at e \<noteq> Some n"
    and "\<not> (write_fails_at e = Some n \<and> int (buffer_size e) < written + int (length chunk))"
    and "percent (written + int (length chunk)) len = Inr p"
  shows "download_loop e i len written n (chunk # rest) =
           [ReadChunk, FileWrite (filename i) chunk,
            LockAcquire, RegSet (display_filename i) p, LockRelease]
           @ download_loop e i len (written + int (length chunk)) (Suc n) rest"
  using assms by simp

lemma run_pass:
  assumes "lock s = None"
  shows "run_actions w i [ReadChunk, FileWrite f chunk, LockAcquire, RegSet k p, LockRelease] s =
           Next (s\<lparr>files := AList.update f (file_content (files s) f @ chunk) (files s),
                   currently_downloading := AList.update k p (currently_downloading s),
                   lock := None\<rparr>)"
  using assms by simp

lemma download_loop_done_pass:
  assumes "last (download_loop e i len written n (chunk # rest)) = TaskDone"
  shows "\<exists>p. stream_fails_at e \<noteq> Some n \<and>
           \<not> (write_fails_at e = Some n \<and> int (buffer_size e) < written + int (length chunk)) \<and>
           percent (written + int (length chunk)) len = Inr p \<and>
           last (download_loop e i len (written + int (length chunk)) (Suc n) rest) = TaskDone"
  using assms by (auto split: if_splits sum.splits)

lemma file_writes_loop:
  "last (download_loop e i len w n cs) = TaskDone \<Longrightarrow>
   file_writes (download_loop e i len w n cs) = cs"
proof (induction cs arbitrary: w n)
  case Nil
  then show ?case by (simp split: if_splits)
next
  case (Cons c cs)
  from download_loop_done_pass[OF Cons.prems] obtain p where
    p: "stream_fails_at e \<noteq> Some n"
       "\<not> (write_fails_at e = Some n \<and> int (buffer_size e) < w + int (length c))"
       "percent (w + int (length c)) len = Inr p"
       "last (download_loop e i len (w + int (length c)) (Suc n) cs) = TaskDone" by blast
  show ?case using Cons.IH[OF p(4)] p(1-3) by simp
qed

lemma reg_values_loop:
  "last (download_loop e i len w n cs) = TaskDone \<Longrightarrow>
   map Inr (reg_values (download_loop e i len w n cs)) =
     map (\<lambda>j. percent (w + int (length (concat (take (Suc j) cs)))) len) [0..<length cs]"
proof (induction cs arbitrary: w n)
  case Nil
  then show ?case by (simp split: if_splits)
next
  case (Cons c cs)
  from download_loop_done_pass[OF Cons.prems] obtain p where
    p: "stream_fails_at e \<noteq> Some n"
       "\<not> (write_fails_at e = Some n \<and> int (buffer_size e) < w + int (length c))"
       "percent (w + int (length c)) len = Inr p"
       "last (download_loop e i len (w + int (length c)) (Suc n) cs) = TaskDone" by blast
  have "map (\<lambda>j. percent (w + int (length (concat (take (Suc j) (c # cs))))) len) [0..<length (c # cs)]
        = percent (w + int (length c)) len #
          map (\<lambda>j. percent (w + int (length c) + int (length (concat (take (Suc j) cs)))) len) [0..<length cs]"
    by (simp add: map_upt_Suc del: upt_Suc) (simp add: add.assoc)
  then show ?case using Cons.IH[OF p(4)] p(1-3) by simp
qed

lemma run_loop:
  assumes "last (download_loop e i len written n cs) = TaskDone"
    and "lock s = None" "0 < unfinished_tasks s"
    and "display_filename i \<in> fst ` set (currently_downloading s)"
  shows "\<exists>s'. run_actions w i (download_loop e i len written n cs) s = Next s' \<and>
           file_content (files s') (filename i) = file_content (files s) (filename i) @ concat cs \<and>
           display_filename i \<notin> fst ` set (currently_downloading s') \<and>
           unfinished_tasks s' = unfinished_tasks s - 1 \<and> lock s' = None"
  using assms
proof (induction cs arbitrary: written n s)
  case Nil
  then show ?case by (simp add: delete_notin_dom split: if_splits)
next
  case (Cons c cs)
  from download_loop_done_pass[OF Cons.prems(1)] obtain p where
    p: "stream_fails_at e \<noteq> Some n"
       "\<not> (write_fails_at e = Some n \<and> int (buffer_size e) < written + int (length c))"
       "percent (written + int (length c)) len = Inr p"
       "last (download_loop e i len (written + int (length c)) (Suc n) cs) = TaskDone" by blast
  define s1 where "s1 = s\<lparr>files := AList.update (filename i) (file_content (files s) (filename i) @ c) (files s),
                   currently_downloading := AList.update (display_filename i) p (currently_downloading s),
                   lock := None\<rparr>"
  have s1: "lock s1 = None" "0 < unfinished_tasks s1"
    "display_filename i \<in> fst ` set (currently_downloading s1)"
    "unfinished_tasks s1 = unfinished_tasks s"
    "file_content (files s1) (filename i) = file_content (files s) (filename i) @ c"
    using Cons.prems by (simp_all add: s1_def)
  from Cons.IH[OF p(4) s1(1-3)] obtain s' where
    s': "run_actions w i (download_loop e i len (written + int (length c)) (Suc n) cs) s1 = Next s'"
      "file_content (files s') (filename i) = file_content (files s1) (filename i) @ concat cs"
      "display_filename i \<notin> fst ` set (currently_downloading s')"
      "unfinished_tasks s' = unfinished_tasks s1 - 1" "lock s' = None" by blast
  have "run_actions w i (download_loop e i len written n (c # cs)) s = Next s'"
    unfolding download_loop_pass[OF p(1-3)] run_actions_append
    using run_pass[OF Cons.prems(2), of w i "filename i" c "display_filename i" p] s'(1)
    by (simp add: s1_def)
  then show ?case using s' s1 by auto
qed


lemma worker_task_ok_shape:
  assumes "succeeds e i"
  shows "\<exists>h len. content_length e = Some h \<and> py_int h = Some len \<and>
           worker_task e i =
             [LockAcquire, RegSet (display_filename i) 0, LockRelease, HttpGet (task_url i),
              FileOpen (filename i)]
             @ download_loop e i len 0 0 (iter_content e (1024 * 64)) \<and>
           last (download_loop e i len 0 0 (iter_content e (1024 * 64))) = TaskDone"
  using assms
  by (auto simp: succeeds_def worker_task_def split: if_splits option.splits)

lemma run_worker_task:
  assumes "succeeds e i" "lock s = None" "0 < unfinished_tasks s"
  shows "\<exists>s'. run_actions w i (worker_task e i) s = Next s' \<and>
           file_content (files s') (filename i) = concat (iter_content e (1024 * 64)) \<and>
           display_filename i \<notin> fst ` set (currently_downloading s') \<and>
           unfinished_tasks s' = unfinished_tasks s - 1 \<and> lock s' = None"
proof -
  from worker_task_ok_shape[OF assms(1)] obtain h len where
    sh: "worker_task e i =
             [LockAcquire, RegSet (display_filename i) 0, LockRelease, HttpGet (task_url i),
              FileOpen (filename i)]
             @ download_loop e i len 0 0 (iter_content e (1024 * 64))"
        "last (download_loop e i len 0 0 (iter_content e (1024 * 64))) = TaskDone"
    by blast
  define s1 where "s1 = s\<lparr>currently_downloading := AList.update (display_filename i) 0 (currently_downloading s),
      lock := None, requested := requested s @ [i], files := AList.update (filename i) [] (files s)\<rparr>"
  have pre: "run_actions w i [LockAcquire, RegSet (display_filename i) 0, LockRelease,
      HttpGet (task_url i), FileOpen (filename i)] s = Next s1"
    using assms(2) by (simp add: s1_def)
  have s1: "lock s1 = None" "0 < unfinished_tasks s1"
    "display_filename i \<in> fst ` set (currently_downloading s1)"
    using assms by (simp_all add: s1_def)
  from run_loop[OF sh(2) s1, of w] obtain s' where
    s': "run_actions w i (download_loop e i len 0 0 (iter_content e (1024 * 64))) s1 = Next s'"
      "file_content (files s') (filename i) =
         file_content (files s1) (filename i) @ concat (iter_content e (1024 * 64))"
      "display_filename i \<notin> fst ` set (currently_downloading s')"
      "unfinished_tasks s' = unfinished_tasks s1 - 1" "lock s' = None" by blast
  have "run_actions w i (worker_task e i) s = Next s'"
    unfolding sh(1) run_actions_append using pre s'(1) by simp
  moreover have "file_content (files s') (filename i) = concat (iter_content e (1024 * 64))"
    using s'(2) by (simp add: s1_def)
  moreover have "unfinished_tasks s' = unfinished_tasks s - 1" using s'(4) by (simp add: s1_def)
  ultimately show ?thesis using s'(3,5) by blast
qed

lemma succeeds_env_ok: "succeeds env_ok example_task"
  by (simp add: succeeds_def worker_task_env_ok)

section \<open>How close the percentage is to the exact value\<close>

lemma rhe_error: "\<bar>of_int (rhe x) - x\<bar> \<le> 1 / 2"
proof -
  have "of_int \<lfloor>x\<rfloor> \<le> x" "x < of_int \<lfloor>x\<rfloor> + 1" by linarith+
  then show ?thesis by (auto simp: rhe_def Let_def)
qed

lemma expo_le:
  assumes "0 < r" "r < 2 powi (E + 1)"
  shows "expo r \<le> E"
proof (rule ccontr)
  assume "\<not> expo r \<le> E"
  then have "E + 1 \<le> expo r" by simp
  then have "(2::rat) powi (E + 1) \<le> 2 powi (expo r)" by (intro power_int_increasing) auto
  also have "\<dots> \<le> r" using assms(1) by (rule expo_bounds)
  finally show False using assms(2) by simp
qed

lemma rn_error:
  assumes "0 < r"
  shows "\<bar>rn r - r\<bar> \<le> 2 powi (max (expo r - 52) (- 1074)) / 2"
proof -
  define q where "q = max (expo r - 52) (- 1074)"
  have pos: "0 < (2::rat) powi q" by (rule two_powi_pos)
  have "rn r - r = (of_int (rhe (r / 2 powi q)) - r / 2 powi q) * 2 powi q"
    using assms pos by (simp add: rn_pos_eq q_def[symmetric] algebra_simps)
  then have "\<bar>rn r - r\<bar> = \<bar>of_int (rhe (r / 2 powi q)) - r / 2 powi q\<bar> * 2 powi q"
    using pos by (simp add: abs_mult)
  also have "\<dots> \<le> (1 / 2) * 2 powi q"
    using rhe_error[of "r / 2 powi q"] pos by (intro mult_right_mono) auto
  finally show ?thesis by (simp add: q_def)
qed

lemma rn_error_bound:
  assumes "0 \<le> r" "r < 2 powi (E + 1)" "- 1022 \<le> E"
  shows "\<bar>rn r - r\<bar> \<le> 2 powi (E - 53)"
proof (cases "r = 0")
  case True
  then show ?thesis using two_powi_pos[of "E - 53"] by (simp add: rn_zero)
next
  case False
  with assms have pos: "0 < r" by simp
  have "expo r \<le> E" using pos assms(2) by (rule expo_le)
  then have "max (expo r - 52) (- 1074) \<le> E - 52" using assms(3) by simp
  then have "(2::rat) powi (max (expo r - 52) (- 1074)) \<le> 2 powi (E - 52)"
    by (intro power_int_increasing) auto
  also have "(2::rat) powi (E - 52) = 2 powi (E - 53) * 2"
    using two_powi_add[of "E - 53" 1] by simp
  finally have "2 powi (max (expo r - 52) (- 1074)) / 2 \<le> (2::rat) powi (E - 53)" by simp
  with rn_error[OF pos] show ?thesis by linarith
qed

lemma percent_accuracy:
  assumes "0 < l" "0 \<le> w" "w \<le> l"
  shows "\<bar>of_int (rhe (rn (rn (of_int w / of_int l) * 100))) - 100 * (of_int w / of_int l :: rat)\<bar>
           \<le> 1 / 2 + 1 / 2 ^ 45"
proof -
  define r1 :: rat where "r1 = of_int w / of_int l"
  define x1 where "x1 = rn r1"
  define x2 where "x2 = rn (x1 * 100)"
  have r0: "0 \<le> r1" and r1: "r1 \<le> 1" using assms by (simp_all add: r1_def)
  have x10: "0 \<le> x1" unfolding x1_def using r0 by (rule rn_nonneg)
  have x11: "x1 \<le> 1" unfolding x1_def using rn_mono[OF r0 r1] by (simp add: rn_one)
  have e1: "\<bar>x1 - r1\<bar> \<le> 2 powi (- 53)"
    unfolding x1_def using rn_error_bound[of r1 0] r0 r1 by simp
  have e2: "\<bar>x2 - x1 * 100\<bar> \<le> 2 powi (- 47)"
    unfolding x2_def using rn_error_bound[of "x1 * 100" 6] x10 x11 by simp
  have e3: "\<bar>of_int (rhe x2) - x2\<bar> \<le> 1 / 2" by (rule rhe_error)
  have p53: "(2::rat) powi (- 53) = 1 / 2 ^ 53" and p47: "(2::rat) powi (- 47) = 1 / 2 ^ 47"
    by (simp_all add: power_int_minus field_simps)
  have "\<bar>of_int (rhe x2) - 100 * r1\<bar> \<le> 1 / 2 + 1 / 2 ^ 47 + 100 * (1 / 2 ^ 53)"
    using e1 e2 e3 unfolding p53 p47 by linarith
  also have "\<dots> \<le> 1 / 2 + 1 / 2 ^ 45" by simp
  finally show ?thesis unfolding x2_def x1_def r1_def .
qed


section \<open>The whole list of statements of a download that succeeds\<close>

lemma loop_closed_form:
  "last (download_loop e i len w n cs) = TaskDone \<Longrightarrow>
   download_loop e i len w n cs =
     concat (map (\<lambda>j. [ReadChunk, FileWrite (filename i) (cs ! j), LockAcquire,
                        RegSet (display_filename i)
                          (rhe (rn (rn (of_int (w + int (length (concat (take (Suc j) cs))))
                                        / of_int len) * 100))),
                        LockRelease]) [0..<length cs])
     @ [FileClose (filename i), LockAcquire, RegDel (display_filename i), LockRelease, TaskDone]"
proof (induction cs arbitrary: w n)
  case Nil
  then show ?case by (simp split: if_splits)
next
  case (Cons c cs)
  from download_loop_done_pass[OF Cons.prems] obtain p where
    p: "stream_fails_at e \<noteq> Some n"
       "\<not> (write_fails_at e = Some n \<and> int (buffer_size e) < w + int (length c))"
       "percent (w + int (length c)) len = Inr p"
       "last (download_loop e i len (w + int (length c)) (Suc n) cs) = TaskDone" by blast
  have pv: "p = rhe (rn (rn (of_int (w + int (length c)) / of_int len) * 100))"
    using percent_InrD(2)[OF p(3)] .
  have sh: "w + int (length c) + int (length (concat (take (Suc j) cs))) =
            w + int (length (concat (take (Suc (Suc j)) (c # cs))))" for j
    by simp
  show ?case
    unfolding download_loop_pass[OF p(1-3)] Cons.IH[OF p(4)]
    by (simp add: map_upt_Suc pv sh del: upt_Suc of_int_add)
qed

lemma run_passes:
  assumes "lock s = None" "m \<le> length cs"
  shows "\<exists>s'. run_actions w i
             (concat (map (\<lambda>j. [ReadChunk, FileWrite f (cs ! j), LockAcquire, RegSet k (v j),
                                LockRelease]) [0..<m])) s = Next s' \<and>
           lock s' = None \<and>
           file_content (files s') f = file_content (files s) f @ concat (take m cs) \<and>
           (0 < m \<longrightarrow> map_of (currently_downloading s') k = Some (v (m - 1)))"
  using assms(2)
proof (induction m)
  case 0
  then show ?case using assms(1) by simp
next
  case (Suc m)
  then have m: "m < length cs" by simp
  from Suc obtain s1 where
    s1: "run_actions w i
             (concat (map (\<lambda>j. [ReadChunk, FileWrite f (cs ! j), LockAcquire, RegSet k (v j),
                                LockRelease]) [0..<m])) s = Next s1"
        "lock s1 = None"
        "file_content (files s1) f = file_content (files s) f @ concat (take m cs)"
    by auto
  define s2 where "s2 = s1\<lparr>files := AList.update f (file_content (files s1) f @ cs ! m) (files s1),
                   currently_downloading := AList.update k (v m) (currently_downloading s1),
                   lock := None\<rparr>"
  have step: "run_actions w i [ReadChunk, FileWrite f (cs ! m), LockAcquire, RegSet k (v m),
                                LockRelease] s1 = Next s2"
    unfolding s2_def by (rule run_pass[OF s1(2)])
  have "run_actions w i
             (concat (map (\<lambda>j. [ReadChunk, FileWrite f (cs ! j), LockAcquire, RegSet k (v j),
                                LockRelease]) [0..<Suc m])) s = Next s2"
    using s1(1) step by (simp add: run_actions_append)
  moreover have "lock s2 = None" by (simp add: s2_def)
  moreover have "file_content (files s2) f = file_content (files s) f @ concat (take (Suc m) cs)"
    using s1(3) m by (simp add: s2_def take_Suc_conv_app_nth)
  moreover have "map_of (currently_downloading s2) k = Some (v m)"
    by (simp add: s2_def update_conv')
  ultimately show ?case by auto
qed


lemma length_passes:
  "length (concat (map (\<lambda>j. [a j, b j, c j, d j, g j]) js)) = 5 * length js"
  by (induction js) simp_all

lemma take_passes:
  assumes "m \<le> n"
  shows "take (5 * m) (concat (map (\<lambda>j. [a j, b j, c j, d j, g j]) [0..<n]) @ ys) =
         concat (map (\<lambda>j. [a j, b j, c j, d j, g j]) [0..<m])"
proof -
  from assms obtain k where n: "n = m + k" using le_Suc_ex by blast
  have "[0..<n] = [0..<m] @ [m..<m + k]" unfolding n by (rule upt_add_eq_append) simp
  then show ?thesis
    using length_passes[of a b c d g "[0..<m]"] by simp
qed

lemma reg_values_passes:
  "reg_values (concat (map (\<lambda>j. [ReadChunk, FileWrite f (c j), LockAcquire, RegSet k (v j),
                                   LockRelease]) js)) = map v js"
  by (induction js) simp_all

lemma file_writes_passes:
  "file_writes (concat (map (\<lambda>j. [ReadChunk, FileWrite f (c j), LockAcquire, RegSet k (v j),
                                   LockRelease]) js)) = map c js"
  by (induction js) simp_all

lemma worker_task_closed_form:
  assumes "succeeds e i" "content_length e = Some h" "py_int h = Some len"
  shows "worker_task e i =
           [LockAcquire, RegSet (display_filename i) 0, LockRelease, HttpGet (task_url i),
            FileOpen (filename i)]
           @ concat (map (\<lambda>j. [ReadChunk, FileWrite (filename i) (iter_content e (1024 * 64) ! j),
                               LockAcquire,
                               RegSet (display_filename i)
                                 (rhe (rn (rn (of_int (int (length (concat (take (Suc j)
                                     (iter_content e (1024 * 64)))))) / of_int len) * 100))),
                               LockRelease]) [0..<length (iter_content e (1024 * 64))])
           @ [FileClose (filename i), LockAcquire, RegDel (display_filename i), LockRelease,
              TaskDone]"
proof -
  from worker_task_ok_shape[OF assms(1)] assms(2,3) have
    sh: "worker_task e i =
             [LockAcquire, RegSet (display_filename i) 0, LockRelease, HttpGet (task_url i),
              FileOpen (filename i)] @ download_loop e i len 0 0 (iter_content e (1024 * 64))"
        "last (download_loop e i len 0 0 (iter_content e (1024 * 64))) = TaskDone"
    by auto
  show ?thesis unfolding sh(1) using loop_closed_form[OF sh(2)] by simp
qed


section \<open>The steps of one download\<close>

lemma take_prelude:
  "take (5 + n) ([a, b, c, d, g] @ xs) = [a, b, c, d, g] @ take n xs"
proof -
  have n: "5 + n = Suc (Suc (Suc (Suc (Suc n))))" by simp
  show ?thesis unfolding n by simp
qed

text \<open>
  C7, as the code has it.  The worker asks \<^verbatim>\<open>iter_content\<close> for pieces of \<open>1024 * 64\<close> bytes and
  takes the pieces \<open>cs\<close> as they are delivered, whatever their sizes.  A download that succeeds,
  with declared length \<open>len\<close>, runs exactly these statements: the entry is set to 0, the request
  is sent and the file opened; then for each piece in order it is read, written to the file
  and the entry is set under the lock to \<^verbatim>\<open>round(written / length * 100)\<close>, that is the
  quotient of the bytes written so far by \<open>len\<close> rounded to a float, times 100 rounded to a
  float, rounded to the nearest integer (ties to even); then the file is closed and the entry
  deleted.  Run from a state where the lock is free, the statements up to and including piece
  \<open>j\<close> leave in the file the first \<open>j + 1\<close> pieces and in the registry the value for piece
  \<open>j\<close>; the whole list leaves all pieces in the file.  When \<open>len\<close> is positive and not smaller
  than the bytes received, every value is within \<open>1 / 2 + 1 / 2 ^ 45\<close> of the exact
  percentage.
\<close>

theorem streaming_step:
  assumes "succeeds e i" "content_length e = Some h" "py_int h = Some len"
    and "cs = iter_content e (1024 * 64)"
  shows "worker_task e i =
           [LockAcquire, RegSet (display_filename i) 0, LockRelease, HttpGet (task_url i),
            FileOpen (filename i)]
           @ concat (map (\<lambda>j. [ReadChunk, FileWrite (filename i) (cs ! j), LockAcquire,
                               RegSet (display_filename i)
                                 (rhe (rn (rn (of_int (int (length (concat (take (Suc j) cs))))
                                               / of_int len) * 100))),
                               LockRelease]) [0..<length cs])
           @ [FileClose (filename i), LockAcquire, RegDel (display_filename i), LockRelease,
              TaskDone] \<and>
         file_writes (worker_task e i) = cs \<and>
         reg_values (worker_task e i) =
           0 # map (\<lambda>j. rhe (rn (rn (of_int (int (length (concat (take (Suc j) cs))))
                                      / of_int len) * 100))) [0..<length cs] \<and>
         (\<forall>s j. lock s = None \<and> j < length cs \<longrightarrow>
            (\<exists>s'. run_actions w i (take (5 + 5 * Suc j) (worker_task e i)) s = Next s' \<and>
                  file_content (files s') (filename i) = concat (take (Suc j) cs) \<and>
                  map_of (currently_downloading s') (display_filename i) =
                    Some (reg_values (worker_task e i) ! Suc j) \<and>
                  lock s' = None)) \<and>
         (\<forall>s. lock s = None \<and> 0 < unfinished_tasks s \<longrightarrow>
            (\<exists>s'. run_actions w i (worker_task e i) s = Next s' \<and>
                  file_content (files s') (filename i) = concat cs)) \<and>
         (0 < len \<and> int (length (concat cs)) \<le> len \<longrightarrow>
            (\<forall>j < length cs.
               \<bar>of_int (reg_values (worker_task e i) ! Suc j)
                 - 100 * (of_int (int (length (concat (take (Suc j) cs)))) / of_int len :: rat)\<bar>
               \<le> 1 / 2 + 1 / 2 ^ 45))"
proof -
  let ?f = "filename i" and ?k = "display_filename i"
  let ?v = "\<lambda>j. rhe (rn (rn (of_int (int (length (concat (take (Suc j) cs)))) / of_int len) * 100))"
  let ?pre = "[LockAcquire, RegSet ?k 0, LockRelease, HttpGet (task_url i), FileOpen ?f]"
  let ?pass = "\<lambda>j. [ReadChunk, FileWrite ?f (cs ! j), LockAcquire, RegSet ?k (?v j), LockRelease]"
  let ?epi = "[FileClose ?f, LockAcquire, RegDel ?k, LockRelease, TaskDone]"
  have A: "worker_task e i = ?pre @ concat (map ?pass [0..<length cs]) @ ?epi"
    unfolding assms(4) by (rule worker_task_closed_form[OF assms(1-3)])
  have B: "file_writes (worker_task e i) = cs"
    unfolding A file_writes_append file_writes_passes by (simp add: map_nth)
  have C: "reg_values (worker_task e i) = 0 # map ?v [0..<length cs]"
    unfolding A reg_values_append reg_values_passes by simp
  have nth: "reg_values (worker_task e i) ! Suc j = ?v j" if "j < length cs" for j
    unfolding C using that by simp
  have D: "\<exists>s'. run_actions w i (take (5 + 5 * Suc j) (worker_task e i)) s = Next s' \<and>
                  file_content (files s') ?f = concat (take (Suc j) cs) \<and>
                  map_of (currently_downloading s') ?k = Some (reg_values (worker_task e i) ! Suc j) \<and>
                  lock s' = None"
    if s: "lock s = None" and j: "j < length cs" for s j
  proof -
    have tk: "take (5 + 5 * Suc j) (worker_task e i) = ?pre @ concat (map ?pass [0..<Suc j])"
    proof -
      have "take (5 + 5 * Suc j) (worker_task e i) =
            ?pre @ take (5 * Suc j) (concat (map ?pass [0..<length cs]) @ ?epi)"
        unfolding A by (rule take_prelude)
      also have "take (5 * Suc j) (concat (map ?pass [0..<length cs]) @ ?epi) =
                 concat (map ?pass [0..<Suc j])"
        using j by (intro take_passes) simp
      finally show ?thesis .
    qed
    define s1 where "s1 = s\<lparr>currently_downloading := AList.update ?k 0 (currently_downloading s),
      lock := None, requested := requested s @ [i], files := AList.update ?f [] (files s)\<rparr>"
    have pre: "run_actions w i ?pre s = Next s1" using s by (simp add: s1_def)
    have s1: "lock s1 = None" "file_content (files s1) ?f = []" by (simp_all add: s1_def)
    from run_passes[OF s1(1), of "Suc j" cs w i ?f ?k ?v] j obtain s' where
      s': "run_actions w i (concat (map ?pass [0..<Suc j])) s1 = Next s'" "lock s' = None"
          "file_content (files s') ?f = file_content (files s1) ?f @ concat (take (Suc j) cs)"
          "map_of (currently_downloading s') ?k = Some (?v j)"
      by auto
    have "run_actions w i (take (5 + 5 * Suc j) (worker_task e i)) s = Next s'"
      unfolding tk run_actions_append using pre s'(1) by simp
    then show ?thesis using s' s1(2) nth[OF j] by auto
  qed
  have E: "\<exists>s'. run_actions w i (worker_task e i) s = Next s' \<and>
                  file_content (files s') ?f = concat cs"
    if "lock s = None" "0 < unfinished_tasks s" for s
    using run_worker_task[OF assms(1) that, of w] unfolding assms(4) by blast
  have F: "\<bar>of_int (reg_values (worker_task e i) ! Suc j)
                 - 100 * (of_int (int (length (concat (take (Suc j) cs)))) / of_int len :: rat)\<bar>
               \<le> 1 / 2 + 1 / 2 ^ 45"
    if len: "0 < len" "int (length (concat cs)) \<le> len" and j: "j < length cs" for j
  proof -
    have "length (concat (take (Suc j) cs)) \<le> length (concat cs)"
    proof -
      have "concat cs = concat (take (Suc j) cs) @ concat (drop (Suc j) cs)"
        by (metis append_take_drop_id concat_append)
      then have "length (concat cs) =
          length (concat (take (Suc j) cs)) + length (concat (drop (Suc j) cs))"
        by (metis length_append)
      then show ?thesis by simp
    qed
    then have "int (length (concat (take (Suc j) cs))) \<le> len" using len(2) by simp
    from percent_accuracy[OF len(1) _ this] show ?thesis unfolding nth[OF j] by simp
  qed
  from A B C D E F show ?thesis by (intro conjI) blast+
qed


lemma worker_task_env_two_pieces:
  "worker_task env_two_pieces example_task =
     [LockAcquire, RegSet ''Ep 1.mp3'' 0, LockRelease, HttpGet ''https://example.org/audio/ep1.mp3'',
      FileOpen ''episodes/Ep 1.mp3'',
      ReadChunk, FileWrite ''episodes/Ep 1.mp3'' (replicate 115 CHR ''x''),
      LockAcquire, RegSet ''Ep 1.mp3'' 57, LockRelease,
      ReadChunk, FileWrite ''episodes/Ep 1.mp3'' (replicate 85 CHR ''x''),
      LockAcquire, RegSet ''Ep 1.mp3'' 100, LockRelease,
      FileClose ''episodes/Ep 1.mp3'',
      LockAcquire, RegDel ''Ep 1.mp3'', LockRelease, TaskDone]"
  by (simp add: worker_task_def env_two_pieces_def env_ok_def example_task_def py_int_examples
        percent_examples percent_full)

lemma worker_task_env_chunked:
  "worker_task env_chunked example_task =
     [LockAcquire, RegSet ''Ep 1.mp3'' 0, LockRelease, HttpGet ''https://example.org/audio/ep1.mp3'',
      FileOpen ''episodes/Ep 1.mp3'',
      ReadChunk, FileWrite ''episodes/Ep 1.mp3'' ''a'', LockAcquire, RegSet ''Ep 1.mp3'' 33, LockRelease,
      ReadChunk, FileWrite ''episodes/Ep 1.mp3'' ''b'', LockAcquire, RegSet ''Ep 1.mp3'' 67, LockRelease,
      ReadChunk, FileWrite ''episodes/Ep 1.mp3'' ''c'', LockAcquire, RegSet ''Ep 1.mp3'' 100, LockRelease,
      FileClose ''episodes/Ep 1.mp3'',
      LockAcquire, RegDel ''Ep 1.mp3'', LockRelease, TaskDone]"
  by (simp add: worker_task_def env_chunked_def env_ok_def example_task_def py_int_examples
        percent_examples percent_full)

text \<open>
  Two hundred bytes in pieces of 115 and 85 bytes: the values are 0, 57 and 100.  The exact
  percentage after the first piece is 57.5, which rounds to 58; the float product is below
  57.5 and rounds to 57.
\<close>

theorem streaming_step_witness:
  "succeeds env_two_pieces example_task \<and> content_length env_two_pieces = Some ''200'' \<and>
   py_int ''200'' = Some 200 \<and>
   iter_content env_two_pieces (1024 * 64) = [replicate 115 CHR ''x'', replicate 85 CHR ''x''] \<and>
   file_writes (worker_task env_two_pieces example_task) =
     [replicate 115 CHR ''x'', replicate 85 CHR ''x''] \<and>
   reg_values (worker_task env_two_pieces example_task) = [0, 57, 100] \<and>
   rhe (rn (rn (115 / 200) * 100)) = 57 \<and> rhe (rn (rn (200 / 200) * 100)) = 100 \<and>
   rhe (115 / 200 * 100) = 58"
proof -
  have s: "succeeds env_two_pieces example_task"
    by (simp add: succeeds_def worker_task_env_two_pieces)
  have h: "content_length env_two_pieces = Some ''200''"
    by (simp add: env_two_pieces_def env_ok_def)
  have p: "py_int ''200'' = Some 200" by (rule py_int_examples)
  have c: "[replicate 115 CHR ''x'', replicate 85 CHR ''x''] = iter_content env_two_pieces (1024 * 64)"
    by (simp add: env_two_pieces_def env_ok_def)
  have v: "reg_values (worker_task env_two_pieces example_task) = [0, 57, 100]"
    by (simp add: worker_task_env_two_pieces)
  have u: "[0..<2] = [0, 1]" by (simp add: numeral_eq_Suc)
  have x: "rhe (115 / 200 * 100) = 58" by code_simp
  from streaming_step[OF s h p c, of 0] show ?thesis
    using s h p c[symmetric] v x by (simp add: u)
qed

text \<open>
  The pieces are not cut to a fixed size by the worker: three bytes delivered one at a time are
  written in three writes, with the values 0, 33, 67 and 100.
\<close>

theorem pieces_as_delivered:
  "succeeds env_chunked example_task \<and>
   concat (iter_content env_chunked (1024 * 64)) = ''abc'' \<and>
   file_writes (worker_task env_chunked example_task) = [''a'', ''b'', ''c''] \<and>
   reg_values (worker_task env_chunked example_task) = [0, 33, 67, 100]"
  by (simp add: succeeds_def worker_task_env_chunked) (simp add: env_chunked_def env_ok_def)


section \<open>The percentages of one download\<close>

text \<open>
  C6, with the two conditions it needs: when the declared \<^verbatim>\<open>content-length\<close> is positive, the
  values assigned to the registry entry of a download (the initial 0 and then one value per
  piece) are non-decreasing; when moreover the bytes received are not more than the declared
  length, every value lies between 0 and 100.
\<close>

theorem percent_sequence:
  assumes "content_length e = Some h" and "py_int h = Some len" and "0 < len"
  shows "sorted (reg_values (worker_task e i)) \<and>
         (int (length (concat (iter_content e (1024 * 64)))) \<le> len \<longrightarrow>
            (\<forall>p \<in> set (reg_values (worker_task e i)). 0 \<le> p \<and> p \<le> 100))"
proof -
  let ?cs = "iter_content e (1024 * 64)"
  let ?vs = "reg_values (download_loop e i len 0 0 ?cs)"
  have shape: "reg_values (worker_task e i) = [0] \<or> reg_values (worker_task e i) = 0 # ?vs"
    using reg_values_worker_task[of e i] assms(1,2) by auto
  have orig: "\<exists>w'. 0 \<le> w' \<and> w' \<le> int (length (concat ?cs)) \<and> percent w' len = Inr p"
    if "p \<in> set ?vs" for p
    using loop_values_from[OF that] by simp
  have nonneg: "0 \<le> p" if "p \<in> set ?vs" for p
    using orig[OF that] percent_nonneg[OF assms(3)] by blast
  have "sorted ?vs" using assms(3) by (intro loop_values_sorted) simp_all
  then have "sorted (0 # ?vs)" using nonneg by simp
  then have mono: "sorted (reg_values (worker_task e i))" using shape by auto
  have "p \<le> 100" if "p \<in> set ?vs" "int (length (concat ?cs)) \<le> len" for p
  proof -
    from orig[OF that(1)] obtain w' where
      w': "0 \<le> w'" "w' \<le> int (length (concat ?cs))" "percent w' len = Inr p" by blast
    from percent_in_range[OF assms(3) w'(1)] w'(2) that(2) w'(3) show ?thesis by auto
  qed
  then have "int (length (concat ?cs)) \<le> len \<longrightarrow>
      (\<forall>p \<in> set (reg_values (worker_task e i)). 0 \<le> p \<and> p \<le> 100)"
    using shape nonneg by auto
  with mono show ?thesis by simp
qed

text \<open>The three-byte download of \<open>env_ok\<close> satisfies the conditions; its values are 0 and 100.\<close>

theorem percent_sequence_witness:
  "content_length env_ok = Some ''3'' \<and> py_int ''3'' = Some 3 \<and> (0::int) < 3 \<and>
   int (length (concat (iter_content env_ok (1024 * 64)))) \<le> 3 \<and>
   reg_values (worker_task env_ok example_task) = [0, 100] \<and>
   sorted (reg_values (worker_task env_ok example_task)) \<and>
   list_all (\<lambda>p. 0 \<le> p \<and> p \<le> 100) (reg_values (worker_task env_ok example_task))"
proof -
  have h: "content_length env_ok = Some ''3''"
    "int (length (concat (iter_content env_ok (1024 * 64)))) \<le> 3"
    by (simp_all add: env_ok_def)
  have p: "py_int ''3'' = Some 3" by (rule py_int_examples)
  have v: "reg_values (worker_task env_ok example_task) = [0, 100]"
    by (simp add: worker_task_env_ok)
  show ?thesis
    using percent_sequence[OF h(1) p, of example_task] h p v by simp
qed

text \<open>
  Two bytes received with a declared length of 1 are reported as 200 percent, and a declared
  length of -1 makes the values decrease to -100.
\<close>

theorem percent_out_of_range:
  "reg_values (worker_task env_short_length example_task) = [0, 200] \<and>
   reg_values (worker_task env_negative_length example_task) = [0, - 100]"
  by (simp add: worker_task_def env_short_length_def env_negative_length_def env_ok_def
        example_task_def py_int_examples percent_double percent_negative)

section \<open>A download of no bytes\<close>



section \<open>Failures inside the worker\<close>





section \<open>Runs\<close>

lemma exec_Nil [simp]: "exec env output [] s = s"
  by (simp add: exec_def)

lemma exec_snoc: "exec env output (sched @ [t]) s = sched_step env output (exec env output sched s) t"
  by (simp add: exec_def)

lemma exec_append: "exec env output (xs @ ys) s = exec env output ys (exec env output xs s)"
  by (simp add: exec_def)

lemma exec_invariant:
  assumes "P s0"
    and "\<And>s t s'. P s \<Longrightarrow> step env output t s = Some s' \<Longrightarrow> P s'"
  shows "P (exec env output sched s0)"
proof (induction sched rule: rev_induct)
  case Nil
  then show ?case using assms(1) by simp
next
  case (snoc t sched)
  show ?case
  proof (cases "step env output t (exec env output sched s0)")
    case None
    then show ?thesis using snoc by (simp add: exec_snoc sched_step_def)
  next
    case (Some s')
    then show ?thesis using assms(2)[OF snoc Some] by (simp add: exec_snoc sched_step_def)
  qed
qed

lemma step_worker_cases [consumes 1, case_names loop empty pop idle raise advance]:
  assumes "step_worker env w s = Some s'"
  obtains
    (loop) "w < length (workers s)" "workers s ! w = WLoop"
      "s' = s\<lparr>workers := (workers s)[w := (if finish s then WExited else WGet)]\<rparr>"
  | (empty) "w < length (workers s)" "workers s ! w = WGet" "queue s = []"
      "s' = s\<lparr>workers := (workers s)[w := WLoop]\<rparr>"
  | (pop) i q where "w < length (workers s)" "workers s ! w = WGet" "queue s = i # q"
      "s' = s\<lparr>queue := q, workers := (workers s)[w := WBusy i [] (worker_task (env i) i)]\<rparr>"
  | (idle) i dn where "w < length (workers s)" "workers s ! w = WBusy i dn []"
      "s' = s\<lparr>workers := (workers s)[w := WLoop]\<rparr>"
  | (raise) i dn a rest err where "w < length (workers s)"
      "workers s ! w = WBusy i dn (a # rest)" "act w i a s = Raised err"
      "s' = s\<lparr>workers := (workers s)[w := WCrashed i dn err]\<rparr>"
  | (advance) i dn a rest s1 where "w < length (workers s)"
      "workers s ! w = WBusy i dn (a # rest)" "act w i a s = Next s1"
      "s' = s1\<lparr>workers := (workers s1)[w := (if rest = [] then WLoop
                                              else WBusy i (dn @ [a]) rest)]\<rparr>"
proof -
  from assms have lt: "w < length (workers s)"
    by (simp add: step_worker_def split: if_splits)
  show thesis
  proof (cases "workers s ! w")
    case WLoop
    then show ?thesis using assms lt loop by (simp add: step_worker_def)
  next
    case WGet
    show ?thesis
    proof (cases "queue s")
      case Nil
      then show ?thesis using assms lt WGet empty by (simp add: step_worker_def)
    next
      case (Cons i q)
      then show ?thesis using assms lt WGet pop by (simp add: step_worker_def)
    qed
  next
    case (WBusy i d todo)
    show ?thesis
    proof (cases todo)
      case Nil
      then show ?thesis using assms lt WBusy idle by (simp add: step_worker_def)
    next
      case (Cons a rest)
      show ?thesis
      proof (cases "act w i a s")
        case Blocked
        then show ?thesis using assms lt WBusy Cons by (simp add: step_worker_def)
      next
        case (Raised err)
        then show ?thesis using assms lt WBusy Cons raise by (simp add: step_worker_def)
      next
        case (Next s1)
        then show ?thesis using assms lt WBusy Cons advance[of i d a rest s1]
          by (simp add: step_worker_def)
      qed
    qed
  next
    case WExited
    then show ?thesis using assms lt by (simp add: step_worker_def)
  next
    case (WCrashed i d err)
    then show ?thesis using assms lt by (simp add: step_worker_def)
  qed
qed

lemma act_Next_frame:
  assumes "act w i a s = Next s1"
  shows "workers s1 = workers s" "queue s1 = queue s" "producer s1 = producer s"
    "renderer s1 = renderer s" "finish s1 = finish s" "stdout s1 = stdout s"
    "enqueued s1 = enqueued s"
  using assms by (cases a; auto split: if_splits)+

lemma step_producer_cases [consumes 1, case_names finish skip check put join set_finish join_threads]:
  assumes "step_producer output s = Some s'"
  obtains
    (finish) "producer s = MLoop []" "s' = s\<lparr>producer := MJoin\<rparr>"
  | (skip) ep eps where "producer s = MLoop (ep # eps)"
      "path_exists (files s) (filename (make_task output ep))" "s' = s\<lparr>producer := MLoop eps\<rparr>"
  | (check) ep eps where "producer s = MLoop (ep # eps)"
      "\<not> path_exists (files s) (filename (make_task output ep))"
      "s' = s\<lparr>producer := MPut (make_task output ep) eps\<rparr>"
  | (put) i eps where "producer s = MPut i eps"
      "s' = s\<lparr>queue := queue s @ [i], unfinished_tasks := Suc (unfinished_tasks s),
               enqueued := enqueued s @ [i], producer := MLoop eps\<rparr>"
  | (join) "producer s = MJoin" "unfinished_tasks s = 0" "s' = s\<lparr>producer := MSetFinish\<rparr>"
  | (set_finish) "producer s = MSetFinish" "s' = s\<lparr>finish := True, producer := MJoinThreads\<rparr>"
  | (join_threads) "producer s = MJoinThreads" "list_all terminated (workers s)"
      "renderer s = RExited" "s' = s\<lparr>producer := MDone\<rparr>"
proof (cases "producer s")
  case (MLoop eps)
  show ?thesis
  proof (cases eps)
    case Nil
    then show ?thesis using assms MLoop finish by (simp add: step_producer_def)
  next
    case (Cons ep eps')
    then show ?thesis using assms MLoop skip[of ep eps'] check[of ep eps']
      by (cases "path_exists (files s) (filename (make_task output ep))")
         (simp_all add: step_producer_def Let_def)
  qed
next
  case (MPut i eps)
  then show ?thesis using assms put by (simp add: step_producer_def)
next
  case MJoin
  then show ?thesis using assms join by (simp add: step_producer_def split: if_splits)
next
  case MSetFinish
  then show ?thesis using assms set_finish by (simp add: step_producer_def)
next
  case MJoinThreads
  then show ?thesis using assms join_threads by (simp add: step_producer_def split: if_splits)
next
  case MDone
  then show ?thesis using assms by (simp add: step_producer_def)
qed

lemma step_renderer_cases [consumes 1, case_names exit cursor acquire render release sleep]:
  assumes "step_renderer s = Some s'"
  obtains
    (exit) old where "renderer s = RLoop old" "finish s" "s' = s\<lparr>renderer := RExited\<rparr>"
  | (cursor) old where "renderer s = RLoop old" "\<not> finish s"
      "s' = s\<lparr>stdout := stdout s @ (if count_nl old \<noteq> 0 then cursor_up (count_nl old) else []),
               renderer := RAcquire (count_nl old)\<rparr>"
  | (acquire) old_lines where "renderer s = RAcquire old_lines" "lock s = None"
      "s' = s\<lparr>lock := Some Renderer, renderer := RRender old_lines\<rparr>"
  | (render) old_lines where "renderer s = RRender old_lines"
      "s' = s\<lparr>stdout := stdout s @ (if length (currently_downloading s) \<noteq> 0
                                      then render_block old_lines (currently_downloading s) else []),
               renderer := RRelease (render_block old_lines (currently_downloading s))\<rparr>"
  | (release) new where "renderer s = RRelease new" "s' = s\<lparr>lock := None, renderer := RSleep new\<rparr>"
  | (sleep) new where "renderer s = RSleep new" "s' = s\<lparr>renderer := RLoop new\<rparr>"
proof (cases "renderer s")
  case (RLoop old)
  then show ?thesis using assms exit[of old] cursor[of old]
    by (cases "finish s") (simp_all add: step_renderer_def Let_def)
next
  case (RAcquire n)
  then show ?thesis using assms acquire by (simp add: step_renderer_def split: if_splits)
next
  case (RRender n)
  then show ?thesis using assms render by (simp add: step_renderer_def Let_def)
next
  case (RRelease new)
  then show ?thesis using assms release by (simp add: step_renderer_def)
next
  case (RSleep new)
  then show ?thesis using assms sleep by (simp add: step_renderer_def)
next
  case RExited
  then show ?thesis using assms by (simp add: step_renderer_def)
qed

lemma length_workers_exec [simp]:
  "length (workers (exec env output sched (init W eps fs))) = W"
proof (rule exec_invariant[where P="\<lambda>s. length (workers s) = W"])
  show "length (workers (init W eps fs)) = W" by (simp add: init_def)
next
  fix s t s'
  assume inv: "length (workers s) = W" and st: "step env output t s = Some s'"
  show "length (workers s') = W"
  proof (cases t)
    case Producer
    with st have "step_producer output s = Some s'" by simp
    then show ?thesis using inv by (cases rule: step_producer_cases) auto
  next
    case (Worker w)
    with st have "step_worker env w s = Some s'" by simp
    then show ?thesis using inv
      by (cases rule: step_worker_cases) (auto dest: act_Next_frame(1))
  next
    case Renderer
    with st have "step_renderer s = Some s'" by simp
    then show ?thesis using inv by (cases rule: step_renderer_cases) auto
  qed
qed


section \<open>The shape of a task's statements\<close>

lemma proto_download_loop: "proto (display_filename i) Live (download_loop e i len w n cs)"
  by (induction cs arbitrary: w n) (auto split: sum.splits)

lemma proto_worker_task: "proto (display_filename i) Before (worker_task e i)"
  using proto_download_loop[of i e _ 0 0 "iter_content e (1024 * 64)"]
  by (auto simp: worker_task_def split: option.splits)

lemma scope_download_loop: "scope_ok False (download_loop e i len w n cs)"
  by (induction cs arbitrary: w n) (auto split: sum.splits)

lemma scope_worker_task: "scope_ok False (worker_task e i)"
  using scope_download_loop[of e i _ 0 0 "iter_content e (1024 * 64)"]
  by (auto simp: worker_task_def split: option.splits)

lemma phase_of_Nil [simp]: "phase_of k [] = Before"
  by (simp add: phase_of_def)

lemma phase_of_snoc_set:
  "phase_of k done \<noteq> After \<Longrightarrow> phase_of k (done @ [RegSet k v]) = Live"
  by (auto simp: phase_of_def list_ex_iff split: if_splits)

lemma phase_of_snoc_del: "phase_of k (done @ [RegDel k]) = After"
  by (auto simp: phase_of_def)

lemma phase_of_snoc_other:
  "a \<noteq> RegDel k \<Longrightarrow> \<not> sets_key k a \<Longrightarrow> phase_of k (done @ [a]) = phase_of k done"
  by (auto simp: phase_of_def list_ex_iff)

lemma proto_last:
  "proto k ph [a] \<Longrightarrow> (a = TaskDone \<and> ph = After) \<or> (\<exists>err. a = Raise err \<and> ph = Live)"
  by (cases a) auto

lemma proto_step:
  assumes "proto k (phase_of k done) (a # rest)" "rest \<noteq> []"
  shows "proto k (phase_of k (done @ [a])) rest"
proof (cases a)
  case (RegSet k' v)
  with assms show ?thesis by (auto simp: phase_of_snoc_set)
next
  case (RegDel k')
  with assms show ?thesis by (auto simp: phase_of_snoc_del)
qed (use assms in \<open>auto simp: phase_of_snoc_other\<close>)

lemma in_set_updateD: "x \<in> set (xs[w := y]) \<Longrightarrow> x = y \<or> x \<in> set xs"
  using set_update_subset_insert[of xs w y] by fastforce

lemma wf_status_exec:
  "\<forall>ws \<in> set (workers (exec env output sched (init W eps fs))). wf_status ws"
proof (rule exec_invariant[where P="\<lambda>s. \<forall>ws \<in> set (workers s). wf_status ws"])
  show "\<forall>ws \<in> set (workers (init W eps fs)). wf_status ws" by (simp add: init_def)
next
  fix s t s'
  assume inv: "\<forall>ws \<in> set (workers s). wf_status ws" and st: "step env output t s = Some s'"
  show "\<forall>ws \<in> set (workers s'). wf_status ws"
  proof (cases t)
    case Producer
    with st have "step_producer output s = Some s'" by simp
    then show ?thesis using inv by (cases rule: step_producer_cases) auto
  next
    case (Worker w)
    with st have "step_worker env w s = Some s'" by simp
    then show ?thesis
    proof (cases rule: step_worker_cases)
      case (pop i q)
      then show ?thesis using inv proto_worker_task[of i "env i"] by (auto dest!: in_set_updateD)
    next
      case (advance i d a rest s1)
      have "wf_status (WBusy i d (a # rest))" using inv advance(1,2) by (metis nth_mem)
      then have "rest \<noteq> [] \<Longrightarrow> wf_status (WBusy i (d @ [a]) rest)"
        using proto_step[of "display_filename i" d a rest] by simp
      then show ?thesis using inv advance act_Next_frame(1)[OF advance(3)]
        by (auto dest!: in_set_updateD)
    qed (use inv in \<open>auto dest!: in_set_updateD\<close>)
  next
    case Renderer
    with st have "step_renderer s = Some s'" by simp
    then show ?thesis using inv by (cases rule: step_renderer_cases) auto
  qed
qed

lemma step_cases [consumes 1, case_names producer worker renderer]:
  assumes "step env output t s = Some s'"
  obtains
    (producer) "t = Producer" "step_producer output s = Some s'"
  | (worker) w where "t = Worker w" "step_worker env w s = Some s'"
  | (renderer) "t = Renderer" "step_renderer s = Some s'"
  using assms by (cases t) auto

section \<open>Who holds the lock\<close>

lemma lock_ok_cong:
  "(l = Some (Worker w)) = (l' = Some (Worker w)) \<Longrightarrow> lock_ok l w ws = lock_ok l' w ws"
  by (cases ws) auto

lemma lock_ok_Renderer [simp]: "lock_ok (Some Renderer) w ws = lock_ok None w ws"
  by (rule lock_ok_cong) simp

lemma lock_inv_fieldsI:
  assumes "lock_inv s" "w < length (workers s)"
    and "workers s' = (workers s)[w := y]" "renderer s' = renderer s"
    and "lock s' = lock s \<and> lock_ok (lock s) w y
         \<or> lock s = None \<and> lock s' = Some (Worker w) \<and> lock_ok (Some (Worker w)) w y
         \<or> lock s = Some (Worker w) \<and> lock s' = None \<and> lock_ok None w y"
  shows "lock_inv s'"
proof -
  have other: "lock_ok (lock s') v (workers s ! v)" if "v < length (workers s)" "v \<noteq> w" for v
  proof -
    have "lock_ok (lock s) v (workers s ! v)" using assms(1) that(1) by (simp add: lock_inv_def)
    moreover have "(lock s' = Some (Worker v)) = (lock s = Some (Worker v))"
      using assms(5) that(2) by auto
    ultimately show ?thesis using lock_ok_cong[of "lock s'" v "lock s"] by simp
  qed
  have own: "lock_ok (lock s') w y" using assms(5) by auto
  have "\<forall>v < length (workers s'). lock_ok (lock s') v (workers s' ! v)"
    using other own assms(2,3) by (auto simp: nth_list_update)
  moreover have "(lock s' = Some Renderer) = renderer_holds (renderer s')"
    using assms(1,4,5) by (auto simp: lock_inv_def)
  moreover have "lock s' \<noteq> Some Producer" using assms(1,5) by (auto simp: lock_inv_def)
  moreover have "\<forall>v. lock s' = Some (Worker v) \<longrightarrow> v < length (workers s')"
    using assms(1,2,3,5) by (auto simp: lock_inv_def)
  ultimately show ?thesis by (simp add: lock_inv_def)
qed

lemma lock_inv_worker:
  assumes inv: "lock_inv s" and st: "step_worker env w s = Some s'"
  shows "lock_inv s'"
  using st
proof (cases rule: step_worker_cases)
  case loop
  have "lock_ok (lock s) w WLoop" using inv loop(1,2) by (auto simp: lock_inv_def)
  then have "lock_ok (lock s) w (if finish s then WExited else WGet)" by simp
  then show ?thesis using loop by (intro lock_inv_fieldsI[OF inv loop(1)]) auto
next
  case empty
  have "lock_ok (lock s) w WGet" using inv empty(1,2) by (auto simp: lock_inv_def)
  then show ?thesis using empty by (intro lock_inv_fieldsI[OF inv empty(1)]) auto
next
  case (pop i q)
  have "lock_ok (lock s) w WGet" using inv pop(1,2) by (auto simp: lock_inv_def)
  then have "lock_ok (lock s) w (WBusy i [] (worker_task (env i) i))"
    using scope_worker_task[of "env i" i] by simp
  then show ?thesis using pop by (intro lock_inv_fieldsI[OF inv pop(1)]) auto
next
  case (idle i d)
  have "lock_ok (lock s) w (WBusy i d [])" using inv idle(1,2) by (auto simp: lock_inv_def)
  then show ?thesis using idle by (intro lock_inv_fieldsI[OF inv idle(1)]) auto
next
  case (raise i d a rest err)
  then show ?thesis by (intro lock_inv_fieldsI[OF inv raise(1)]) auto
next
  case (advance i d a rest s1)
  define y where "y = (if rest = [] then WLoop else WBusy i (d @ [a]) rest)"
  have sc: "scope_ok (lock s = Some (Worker w)) (a # rest)"
    using inv advance(1,2) by (auto simp: lock_inv_def)
  have "lock s1 = lock s \<and> lock_ok (lock s) w y
         \<or> lock s = None \<and> lock s1 = Some (Worker w) \<and> lock_ok (Some (Worker w)) w y
         \<or> lock s = Some (Worker w) \<and> lock s1 = None \<and> lock_ok None w y"
    using sc advance(3) by (cases a) (auto simp: y_def split: if_splits)
  then show ?thesis
    using advance(4) act_Next_frame(1,4)[OF advance(3)]
    by (intro lock_inv_fieldsI[OF inv advance(1), of _ y]) (auto simp: y_def)
qed

lemma lock_inv_exec: "lock_inv (exec env output sched (init W eps fs))"
proof (rule exec_invariant[where P=lock_inv])
  show "lock_inv (init W eps fs)" by (simp add: init_def lock_inv_def)
next
  fix s t s'
  assume inv: "lock_inv s" and st: "step env output t s = Some s'"
  from st show "lock_inv s'"
  proof (cases rule: step_cases)
    case producer
    from producer(2) show ?thesis using inv
      by (cases rule: step_producer_cases) (auto simp: lock_inv_def)
  next
    case (worker w)
    then show ?thesis using inv lock_inv_worker by blast
  next
    case renderer
    from renderer(2) show ?thesis using inv
      by (cases rule: step_renderer_cases) (auto simp: lock_inv_def)
  qed
qed

section \<open>Who owns a registry entry\<close>

lemma dom_delete: "fst ` set (AList.delete k al) = fst ` set al - {k}"
  by (induction al) auto

lemma owner_inv_fieldsI:
  assumes "owner_inv s" "w < length (workers s)" "workers s' = (workers s)[w := y]"
    and "distinct (map fst (currently_downloading s'))"
    and "\<forall>k \<in> fst ` set (currently_downloading s').
            (k \<in> fst ` set (currently_downloading s) \<and>
             (holds_entry k (workers s ! w) \<longrightarrow> holds_entry k y)) \<or> holds_entry k y"
  shows "owner_inv s'"
proof -
  have "\<exists>v < length (workers s'). holds_entry k (workers s' ! v)"
    if k: "k \<in> fst ` set (currently_downloading s')" for k
  proof (cases "holds_entry k y")
    case True
    then show ?thesis using assms(2,3) by (intro exI[of _ w]) simp
  next
    case False
    with assms(5) k have old: "k \<in> fst ` set (currently_downloading s)"
      and keep: "\<not> holds_entry k (workers s ! w)" by auto
    from assms(1) old obtain v where v: "v < length (workers s)" "holds_entry k (workers s ! v)"
      by (auto simp: owner_inv_def)
    with keep have "v \<noteq> w" by auto
    then show ?thesis using v assms(3) by (intro exI[of _ v]) simp
  qed
  then show ?thesis using assms(4) by (simp add: owner_inv_def)
qed

lemma holds_entry_next:
  assumes "proto (display_filename i) (phase_of (display_filename i) d) (a # rest)"
    and "a \<noteq> RegDel (display_filename i)" "\<not> sets_key (display_filename i) a"
    and "\<forall>err. a \<noteq> Raise err"
    and "holds_entry k (WBusy i d (a # rest))"
  shows "holds_entry k (if rest = [] then WLoop else WBusy i (d @ [a]) rest)"
proof (cases "rest = []")
  case True
  with assms(1) proto_last[of "display_filename i" _ a] assms(4,5) show ?thesis by auto
next
  case False
  then show ?thesis using assms(2,3,5) by (auto simp: phase_of_snoc_other)
qed

lemma owner_inv_worker:
  assumes inv: "owner_inv s" and wf: "\<forall>ws \<in> set (workers s). wf_status ws"
    and st: "step_worker env w s = Some s'"
  shows "owner_inv s'"
  using st
proof (cases rule: step_worker_cases)
  case loop
  then show ?thesis using inv by (intro owner_inv_fieldsI[OF inv loop(1)]) (auto simp: owner_inv_def)
next
  case empty
  then show ?thesis using inv by (intro owner_inv_fieldsI[OF inv empty(1)]) (auto simp: owner_inv_def)
next
  case (pop i q)
  then show ?thesis using inv by (intro owner_inv_fieldsI[OF inv pop(1)]) (auto simp: owner_inv_def)
next
  case (idle i d)
  have "wf_status (WBusy i d [])" using wf idle(1,2) by (metis nth_mem)
  then show ?thesis by simp
next
  case (raise i d a rest err)
  then show ?thesis using inv
    by (intro owner_inv_fieldsI[OF inv raise(1)]) (auto simp: owner_inv_def)
next
  case (advance i d a rest s1)
  define K where "K = display_filename i"
  define y where "y = (if rest = [] then WLoop else WBusy i (d @ [a]) rest)"
  have pr: "proto K (phase_of K d) (a # rest)"
    using wf advance(1,2) unfolding K_def by (metis nth_mem wf_status.simps(1))
  have ws: "workers s' = (workers s)[w := y]"
    using advance(4) act_Next_frame(1)[OF advance(3)] by (simp add: y_def)
  have reg: "currently_downloading s' = currently_downloading s1" using advance(4) by simp
  have dist: "distinct (map fst (currently_downloading s))" using inv by (simp add: owner_inv_def)
  have own: "k = K" if "holds_entry k (workers s ! w)" for k
    using that advance(2) by (simp add: K_def)
  consider (set) v where "a = RegSet K v" | (del) "a = RegDel K"
    | (other) "\<forall>k v. a \<noteq> RegSet k v" "\<forall>k. a \<noteq> RegDel k"
    using pr by (cases a) auto
  then show ?thesis
  proof cases
    case (set v)
    with pr have ph: "phase_of K d \<noteq> After" and rest: "rest \<noteq> []" by auto
    have s1: "currently_downloading s1 = AList.update K v (currently_downloading s)"
      using advance(3) set by auto
    have hy: "holds_entry K y"
      using rest ph set by (simp add: y_def K_def[symmetric] phase_of_snoc_set)
    have "(k \<in> fst ` set (currently_downloading s) \<and>
             (holds_entry k (workers s ! w) \<longrightarrow> holds_entry k y)) \<or> holds_entry k y"
      if "k \<in> fst ` set (currently_downloading s')" for k
    proof (cases "k = K")
      case True
      then show ?thesis using hy by simp
    next
      case False
      then show ?thesis using that own[of k] by (auto simp: reg s1 dom_update)
    qed
    then show ?thesis using dist
      by (intro owner_inv_fieldsI[OF inv advance(1) ws]) (simp_all add: reg s1 distinct_update)
  next
    case del
    have s1: "currently_downloading s1 = AList.delete K (currently_downloading s)"
      using advance(3) del by (auto split: if_splits)
    have "(k \<in> fst ` set (currently_downloading s) \<and>
             (holds_entry k (workers s ! w) \<longrightarrow> holds_entry k y)) \<or> holds_entry k y"
      if "k \<in> fst ` set (currently_downloading s')" for k
    proof -
      from that have "k \<noteq> K" "k \<in> fst ` set (currently_downloading s)"
        by (auto simp: reg s1 dom_delete)
      then show ?thesis using own[of k] by auto
    qed
    then show ?thesis using dist
      by (intro owner_inv_fieldsI[OF inv advance(1) ws]) (simp_all add: reg s1 distinct_delete)
  next
    case other
    have s1: "currently_downloading s1 = currently_downloading s"
      using advance(3) other by (cases a; auto split: if_splits)
    have nr: "\<forall>err. a \<noteq> Raise err" using advance(3) by auto
    have ns: "\<not> sets_key K a" using other(1) by (cases a) auto
    have "holds_entry k (workers s ! w) \<longrightarrow> holds_entry k y" for k
    proof
      assume "holds_entry k (workers s ! w)"
      then have h: "holds_entry k (WBusy i d (a # rest))" using advance(2) by simp
      have nd: "a \<noteq> RegDel (display_filename i)" using other(2) by simp
      show "holds_entry k y"
        unfolding y_def
        by (rule holds_entry_next[OF pr[unfolded K_def] nd ns[unfolded K_def] nr h])
    qed
    then show ?thesis using dist
      by (intro owner_inv_fieldsI[OF inv advance(1) ws]) (simp_all add: reg s1)
  qed
qed

lemma owner_inv_exec: "owner_inv (exec env output sched (init W eps fs))"
proof -
  let ?P = "\<lambda>s. owner_inv s \<and> (\<forall>ws \<in> set (workers s). wf_status ws)"
  have "?P (exec env output sched (init W eps fs))"
  proof (induction sched rule: rev_induct)
    case Nil
    then show ?case by (simp add: init_def owner_inv_def)
  next
    case (snoc t sched)
    let ?s = "exec env output sched (init W eps fs)"
    have wf': "\<forall>ws \<in> set (workers (exec env output (sched @ [t]) (init W eps fs))). wf_status ws"
      by (rule wf_status_exec)
    show ?case
    proof (cases "step env output t ?s")
      case None
      then show ?thesis using snoc by (simp add: exec_snoc sched_step_def)
    next
      case (Some s')
      then have s': "exec env output (sched @ [t]) (init W eps fs) = s'"
        by (simp add: exec_snoc sched_step_def)
      from Some have "owner_inv s'"
      proof (cases rule: step_cases)
        case producer
        from producer(2) show ?thesis using snoc
          by (cases rule: step_producer_cases) (auto simp: owner_inv_def)
      next
        case (worker w)
        then show ?thesis using snoc owner_inv_worker by blast
      next
        case renderer
        from renderer(2) show ?thesis using snoc
          by (cases rule: step_renderer_cases) (auto simp: owner_inv_def)
      qed
      then show ?thesis using wf' s' by simp
    qed
  qed
  then show ?thesis by simp
qed

lemma holds_entry_same: "holds_entry k ws \<Longrightarrow> holds_entry k' ws \<Longrightarrow> k = k'"
  by (cases ws) auto

lemma owner_inv_length:
  assumes "owner_inv s"
  shows "length (currently_downloading s) \<le> length (workers s)"
proof -
  let ?K = "fst ` set (currently_downloading s)"
  from assms have "\<forall>k \<in> ?K. \<exists>w. w < length (workers s) \<and> holds_entry k (workers s ! w)"
    by (auto simp: owner_inv_def)
  then obtain f where f: "\<forall>k \<in> ?K. f k < length (workers s) \<and> holds_entry k (workers s ! f k)"
    by (rule bchoice[THEN exE]) blast
  have "inj_on f ?K"
  proof (rule inj_onI)
    fix k k' assume "k \<in> ?K" "k' \<in> ?K" "f k = f k'"
    with f have "holds_entry k (workers s ! f k)" "holds_entry k' (workers s ! f k)" by auto
    then show "k = k'" by (rule holds_entry_same)
  qed
  moreover have "f ` ?K \<subseteq> {..<length (workers s)}" using f by auto
  ultimately have "card ?K \<le> card {..<length (workers s)}"
    by (intro card_inj_on_le) auto
  moreover have "card ?K = length (currently_downloading s)"
    using assms distinct_card[of "map fst (currently_downloading s)"]
    by (simp add: owner_inv_def)
  ultimately show ?thesis by simp
qed


lemma worker_task_env_ok_any:
  "worker_task env_ok i =
     [LockAcquire, RegSet (display_filename i) 0, LockRelease, HttpGet (task_url i),
      FileOpen (filename i), ReadChunk, FileWrite (filename i) ''abc'',
      LockAcquire, RegSet (display_filename i) 100, LockRelease, FileClose (filename i),
      LockAcquire, RegDel (display_filename i), LockRelease, TaskDone]"
  by (simp add: worker_task_def env_ok_def py_int_examples percent_full)

lemma make_task_examples:
  "make_task ''episodes'' example_episode =
     \<lparr>task_url = ''https://example.org/audio/ep1.mp3'', filename = ''episodes/Ep 1.mp3'',
      display_filename = ''Ep 1.mp3''\<rparr>"
  "make_task ''episodes'' example_episode2 =
     \<lparr>task_url = ''https://example.org/audio/ep2.mp3'', filename = ''episodes/Ep 2.mp3'',
      display_filename = ''Ep 2.mp3''\<rparr>"
  "make_task ''episodes'' example_episode3 =
     \<lparr>task_url = ''https://example.org/audio/ep3.mp3'', filename = ''episodes/Ep 3.mp3'',
      display_filename = ''Ep 3.mp3''\<rparr>"
  by (simp_all add: make_task_def example_episode_def example_episode2_def example_episode3_def
        path_join_def Let_def)

lemmas run_simps =
  exec_def sched_step_def step_producer_def step_worker_def step_renderer_def init_def
  path_exists_def numeral_eq_Suc Let_def


section \<open>Bounded concurrency\<close>

text \<open>
  C4: in every state that \<open>W\<close> workers can reach, for any episodes (so also for more than
  \<open>W\<close> of them), any responses and any schedule, the registry has at most \<open>W\<close> entries: every
  entry belongs to a worker that set it and has not deleted it, and a worker has one task.
\<close>

theorem bounded_registry:
  "length (currently_downloading (exec env output sched (init W eps fs))) \<le> W"
  using owner_inv_length[OF owner_inv_exec, of env "output" sched W eps fs] by simp

text \<open>
  Two workers, three episodes: after the main thread has queued them, worker 0 has set its entry
  and released the lock, and worker 1 has set its entry, the registry has two entries.
\<close>

theorem bounded_registry_witness:
  "length (currently_downloading (exec (\<lambda>i. env_ok) ''episodes''
      (replicate 6 Producer @ replicate 5 (Worker 0) @ replicate 4 (Worker 1))
      (init 2 [example_episode, example_episode2, example_episode3] []))) \<le> 2 \<and>
   currently_downloading (exec (\<lambda>i. env_ok) ''episodes''
      (replicate 6 Producer @ replicate 5 (Worker 0) @ replicate 4 (Worker 1))
      (init 2 [example_episode, example_episode2, example_episode3] [])) =
     [(''Ep 1.mp3'', 0), (''Ep 2.mp3'', 0)]"
proof -
  have "currently_downloading (exec (\<lambda>i. env_ok) ''episodes''
      (replicate 6 Producer @ replicate 5 (Worker 0) @ replicate 4 (Worker 1))
      (init 2 [example_episode, example_episode2, example_episode3] [])) =
     [(''Ep 1.mp3'', 0), (''Ep 2.mp3'', 0)]"
    by (simp add: run_simps make_task_examples worker_task_env_ok_any)
  then show ?thesis
    using bounded_registry[of "\<lambda>i. env_ok" "''episodes''"
        "replicate 6 Producer @ replicate 5 (Worker 0) @ replicate 4 (Worker 1)" 2
        "[example_episode, example_episode2, example_episode3]" "[]"]
    by simp
qed


section \<open>What is done while the lock is held\<close>

lemma scope_ok_held: "scope_ok True (a # rest) \<Longrightarrow> \<not> io_action a"
  by (cases a) auto

lemma show_int_examples:
  "show_int 0 = ''0''" "show_int 50 = ''50''" "show_int 100 = ''100''" "show_int 7 = ''7''"
  by code_simp+

lemma show_nat_examples:
  "show_nat 1 = ''1''" "show_nat 2 = ''2''"
  by code_simp+

text \<open>
  C9, as the code has it, in every state that a run can reach.  A worker that holds the lock is
  never at a network or disk statement: what it runs next is an assignment to the registry, the
  \<^verbatim>\<open>del\<close>, or the release.  The renderer holds the lock from line 104 to line 114: at line 113
  it holds the lock, and its step appends the block built from the registry to the terminal
  output with the lock still held.  At the top of its loop it does not hold the lock.
\<close>

theorem lock_scope:
  "(\<forall>w i done a rest.
      w < length (workers (exec env output sched (init W eps fs))) \<and>
      workers (exec env output sched (init W eps fs)) ! w = WBusy i done (a # rest) \<and>
      lock (exec env output sched (init W eps fs)) = Some (Worker w)
      \<longrightarrow> \<not> io_action a) \<and>
   (\<forall>old_lines.
      renderer (exec env output sched (init W eps fs)) = RRender old_lines \<longrightarrow>
      lock (exec env output sched (init W eps fs)) = Some Renderer \<and>
      (\<exists>s'. step_renderer (exec env output sched (init W eps fs)) = Some s' \<and>
            stdout s' = stdout (exec env output sched (init W eps fs)) @
              (if length (currently_downloading (exec env output sched (init W eps fs))) \<noteq> 0
               then render_block old_lines
                      (currently_downloading (exec env output sched (init W eps fs)))
               else []) \<and>
            lock s' = Some Renderer)) \<and>
   (\<forall>old. renderer (exec env output sched (init W eps fs)) = RLoop old \<longrightarrow>
      lock (exec env output sched (init W eps fs)) \<noteq> Some Renderer)"
proof -
  let ?s = "exec env output sched (init W eps fs)"
  have inv: "lock_inv ?s" by (rule lock_inv_exec)
  have a: "\<not> io_action a"
    if "w < length (workers ?s)" "workers ?s ! w = WBusy i d (a # rest)"
       "lock ?s = Some (Worker w)" for w i d a rest
  proof -
    from inv that(1) have "lock_ok (lock ?s) w (workers ?s ! w)" by (simp add: lock_inv_def)
    with that(2,3) have "scope_ok True (a # rest)" by simp
    then show ?thesis by (rule scope_ok_held)
  qed
  have b: "lock ?s = Some Renderer \<and>
      (\<exists>s'. step_renderer ?s = Some s' \<and>
            stdout s' = stdout ?s @
              (if length (currently_downloading ?s) \<noteq> 0
               then render_block n (currently_downloading ?s) else []) \<and>
            lock s' = Some Renderer)"
    if "renderer ?s = RRender n" for n
  proof -
    from inv that have l: "lock ?s = Some Renderer" by (simp add: lock_inv_def)
    then show ?thesis using that by (simp add: step_renderer_def Let_def)
  qed
  have c: "lock ?s \<noteq> Some Renderer" if "renderer ?s = RLoop old" for old
    using inv that by (simp add: lock_inv_def)
  from a b c show ?thesis by blast
qed

text \<open>
  One worker has set the entry of its task to 0.  The renderer takes the lock; before its next
  step nothing is printed, after it the line for the task is on the terminal and the lock is
  still the renderer's: the string is built and printed before the release, not after it.
\<close>

theorem renderer_prints_under_lock:
  "lock (exec (\<lambda>i. env_ok) ''episodes''
      (replicate 2 Producer @ replicate 5 (Worker 0) @ replicate 2 Renderer)
      (init 1 [example_episode] [])) = Some Renderer \<and>
   stdout (exec (\<lambda>i. env_ok) ''episodes''
      (replicate 2 Producer @ replicate 5 (Worker 0) @ replicate 2 Renderer)
      (init 1 [example_episode] [])) = [] \<and>
   lock (exec (\<lambda>i. env_ok) ''episodes''
      (replicate 2 Producer @ replicate 5 (Worker 0) @ replicate 3 Renderer)
      (init 1 [example_episode] [])) = Some Renderer \<and>
   stdout (exec (\<lambda>i. env_ok) ''episodes''
      (replicate 2 Producer @ replicate 5 (Worker 0) @ replicate 3 Renderer)
      (init 1 [example_episode] [])) = ''Downloading Ep 1.mp3... 0%'' @ [ESC] @ ''[K'' @ [NL]"
  by (simp add: run_simps make_task_examples worker_task_env_ok_any render_block_def
        progress_line_def count_nl_def clear_eol_def show_int_examples Let_def)

text \<open>A worker between the assignment of line 67 and the release of line 68.\<close>

theorem lock_scope_witness:
  "workers (exec (\<lambda>i. env_ok) ''episodes''
      (replicate 2 Producer @ replicate 4 (Worker 0)) (init 1 [example_episode] [])) ! 0 =
     WBusy (make_task ''episodes'' example_episode)
       [LockAcquire, RegSet ''Ep 1.mp3'' 0]
       (LockRelease # tl (tl (tl (worker_task env_ok (make_task ''episodes'' example_episode))))) \<and>
   lock (exec (\<lambda>i. env_ok) ''episodes''
      (replicate 2 Producer @ replicate 4 (Worker 0)) (init 1 [example_episode] [])) =
     Some (Worker 0) \<and>
   \<not> io_action LockRelease"
proof -
  have w: "workers (exec (\<lambda>i. env_ok) ''episodes''
      (replicate 2 Producer @ replicate 4 (Worker 0)) (init 1 [example_episode] [])) ! 0 =
     WBusy (make_task ''episodes'' example_episode)
       [LockAcquire, RegSet ''Ep 1.mp3'' 0]
       (LockRelease # tl (tl (tl (worker_task env_ok (make_task ''episodes'' example_episode)))))"
    by (simp add: run_simps make_task_examples worker_task_env_ok_any)
  have l: "lock (exec (\<lambda>i. env_ok) ''episodes''
      (replicate 2 Producer @ replicate 4 (Worker 0)) (init 1 [example_episode] [])) =
     Some (Worker 0)"
    by (simp add: run_simps make_task_examples worker_task_env_ok_any)
  from lock_scope[of "\<lambda>i. env_ok" "''episodes''"
      "replicate 2 Producer @ replicate 4 (Worker 0)" 1 "[example_episode]" "[]"]
  show ?thesis using w l by simp
qed

end
